theory Spec2Isabelle
  imports
    Complex_Main
    "HOL-Library.Sublist"
    "HOL-Library.Char_ord"
    "HOL-Library.List_Lexorder"
begin

chapter \<open>The host cache of the Peloton host manager\<close>

text \<open>
  A shallow embedding of \<^verbatim>\<open>pkg/hostmgr/p2k/hostcache/hostcache.go\<close> and of the
  host-event part of the \<^verbatim>\<open>scalar\<close> package (\<^verbatim>\<open>IsOldVersion\<close>), followed by
  the properties of the specification that were checked against them.

  Conventions of the embedding.
  \<^item> A Go map is a partial function; \<^verbatim>\<open>for k, v := range m\<close> visits the keys in an
    order that Go leaves unspecified, so every function that ranges over the host
    index takes the order of the visit as an argument \<open>order\<close> (a list of the keys).
  \<^item> A host summary is reached through a pointer; a method that changes it returns
    the changed summary, and the cache stores it back under the same hostname.
  \<^item> The mutex, the two event channels, the plugin and the lifecycle of
    \<^verbatim>\<open>hostCache\<close> carry no data that the functions below read; the embedding
    is of one call at a time, which is what the lock gives each call.
  \<^item> \<^verbatim>\<open>float64\<close> quantities are values of a type parameter \<open>'n\<close>, on which only
    \<open>0\<close>, \<open>+\<close> and \<open>\<le>\<close> are used and of which no law is assumed. The type
    \<open>float64\<close> of section \<open>Data\<close> has the non-negative values of the Go type with
    its rounding addition, so that a sum can be evaluated at the numbers of the program.
  \<^item> The \<^verbatim>\<open>uint32\<close> counts of the matcher are natural numbers; a count would wrap
    only after \<open>2^32\<close> tries.
  \<^item> A panic ends a call with the outcome \<open>Panic s\<close>, where \<open>s\<close> is the state as the
    call leaves it: the summaries are changed in place through their pointers, so what
    the methods did before the panic stays done, and the deferred unlock runs.
\<close>
section \<open>Resource versions\<close>

subsection \<open>\<^verbatim>\<open>strconv.ParseUint(s, 10, 64)\<close>\<close>

text \<open>
  The Go library function, for base 10 and 64 bits: the empty string and a byte that is
  not a decimal digit give the value 0 with a syntax error; a value above \<open>2^64 - 1\<close>
  gives \<open>2^64 - 1\<close> with a range error, as soon as the digit that overflows is read.
  The accumulator is a \<^verbatim>\<open>uint64\<close>: a natural number reduced modulo \<open>2^64\<close>.
\<close>

datatype NumError = ErrSyntax | ErrRange

definition maxUint64 :: nat where
  "maxUint64 = 2 ^ 64 - 1"

definition cutoff :: nat where
  "cutoff = maxUint64 div 10 + 1"

definition isDigit :: "char \<Rightarrow> bool" where
  "isDigit c = (CHR ''0'' \<le> c \<and> c \<le> CHR ''9'')"

definition digitVal :: "char \<Rightarrow> nat" where
  "digitVal c = of_char c - of_char CHR ''0''"

fun parseUintLoop :: "string \<Rightarrow> nat \<Rightarrow> nat \<times> NumError option" where
  "parseUintLoop [] n = (n, None)"
| "parseUintLoop (c # cs) n =
     (if isDigit c then
        (if cutoff \<le> n then (maxUint64, Some ErrRange)
         else
           (let n10 = (n * 10) mod 2 ^ 64;
                n1 = (n10 + digitVal c) mod 2 ^ 64
            in if n1 < n10 \<or> maxUint64 < n1 then (maxUint64, Some ErrRange)
               else parseUintLoop cs n1))
      else (0, Some ErrSyntax))"

definition ParseUint :: "string \<Rightarrow> nat \<times> NumError option" where
  "ParseUint s = (if s = [] then (0, Some ErrSyntax) else parseUintLoop s 0)"

subsection \<open>\<^verbatim>\<open>IsOldVersion\<close>\<close>

text \<open>Both parse errors are dropped (\<^verbatim>\<open>oldV, _ := ...\<close>); only the values are compared.\<close>

definition IsOldVersion :: "string \<Rightarrow> string \<Rightarrow> bool" where
  "IsOldVersion oldVersion newVersion =
     (let oldV = fst (ParseUint oldVersion);
          newV = fst (ParseUint newVersion)
      in newV < oldV)"

subsection \<open>The version comparison as the specification words it\<close>

text \<open>
  The decimal value of a string of digits, independent of the parser, and the value
  that a version string contributes to the comparison.
\<close>

definition decimalFrom :: "nat \<Rightarrow> string \<Rightarrow> nat" where
  "decimalFrom n s = foldl (\<lambda>a c. 10 * a + digitVal c) n s"

definition decimal :: "string \<Rightarrow> nat" where
  "decimal s = decimalFrom 0 s"

definition isUintString :: "string \<Rightarrow> bool" where
  "isUintString s = (s \<noteq> [] \<and> list_all isDigit s \<and> decimal s \<le> maxUint64)"

definition uintValue :: "string \<Rightarrow> nat" where
  "uintValue s =
     (let p = takeWhile isDigit s
      in if maxUint64 < decimal p then maxUint64
         else if p = s \<and> s \<noteq> [] then decimal s else 0)"

text \<open>
  The specification's reading: compare the numbers when both strings parse, compare the
  strings (bytewise, as Go does) otherwise.
\<close>

definition IsOldVersion_spec :: "string \<Rightarrow> string \<Rightarrow> bool" where
  "IsOldVersion_spec oldVersion newVersion =
     (if snd (ParseUint oldVersion) = None \<and> snd (ParseUint newVersion) = None
      then fst (ParseUint newVersion) < fst (ParseUint oldVersion)
      else newVersion < oldVersion)"

section \<open>Data\<close>

subsection \<open>float64\<close>

text \<open>
  The quantities of a resource vector are Go \<^verbatim>\<open>float64\<close> values. The functions of
  the cache are written over a type parameter \<open>'n\<close>; the type \<open>float64\<close> below is the
  instance at which they compute what the program computes. It has the non-negative
  values of IEEE 754 binary64, which are all that sums of capacities and allocations
  meet: \<open>Finite m e\<close> is the number \<open>m * 2^e\<close> with \<open>m < 2^53\<close> and
  \<open>-1074 \<le> e \<le> 971\<close>, written in the one form where \<open>2^52 \<le> m\<close> (a normal
  number) or \<open>e = -1074\<close> (a subnormal number or zero), and \<open>Infinity\<close> is
  \<^verbatim>\<open>+Inf\<close>. Negative numbers and \<^verbatim>\<open>NaN\<close> are left out; no sum of
  non-negative values gives one.

  Go's \<^verbatim>\<open>+\<close> on \<^verbatim>\<open>float64\<close> is the exact sum rounded to the nearest value, a
  tie going to the even significand, and to \<^verbatim>\<open>+Inf\<close> beyond the largest finite
  value. \<open>round64 s e\<close> rounds the exact number \<open>s * 2^e\<close>, for \<open>-1074 \<le> e\<close>:
  a number of at most 53 bits is exact and is shifted into the form above; a longer
  one loses its low \<open>sh\<close> bits, and the quotient goes up when the bits lost are more
  than half a unit, or exactly half with an odd quotient.
\<close>

fun bitLength :: "nat \<Rightarrow> nat" where
  "bitLength n = (if n = 0 then 0 else Suc (bitLength (n div 2)))"

declare bitLength.simps [simp del]

datatype float64 = Finite nat int | Infinity

definition overflow :: "nat \<Rightarrow> int \<Rightarrow> float64" where
  "overflow m e = (if 971 < e then Infinity else Finite m e)"

definition round64 :: "nat \<Rightarrow> int \<Rightarrow> float64" where
  "round64 s e =
     (if s = 0 then Finite 0 (- 1074)
      else if bitLength s \<le> 53
        then (let d = min (53 - bitLength s) (nat (e + 1074))
              in overflow (s * 2 ^ d) (e - int d))
      else (let sh = bitLength s - 53;
                q = s div 2 ^ sh;
                r = s mod 2 ^ sh;
                half = 2 ^ (sh - 1);
                q' = (if half < r \<or> (r = half \<and> odd q) then q + 1 else q)
            in if q' = 2 ^ 53 then overflow (2 ^ 52) (e + int sh + 1)
               else overflow q' (e + int sh)))"

instantiation float64 :: "{zero, plus}"
begin

definition zero_float64 :: float64 where
  "zero_float64 = Finite 0 (- 1074)"

definition plus_float64 :: "float64 \<Rightarrow> float64 \<Rightarrow> float64" where
  "plus_float64 a b =
     (case a of
        Infinity \<Rightarrow> Infinity
      | Finite m1 e1 \<Rightarrow>
          (case b of
             Infinity \<Rightarrow> Infinity
           | Finite m2 e2 \<Rightarrow>
               (let e = min e1 e2
                in round64 (m1 * 2 ^ nat (e1 - e) + m2 * 2 ^ nat (e2 - e)) e)))"

instance ..

end

subsection \<open>Resources\<close>

text \<open>
  \<^verbatim>\<open>peloton.Resources\<close> is the protobuf message that host events carry; the source
  builds it with the four fields \<^verbatim>\<open>Cpu\<close>, \<^verbatim>\<open>MemMb\<close>, \<^verbatim>\<open>DiskMb\<close>, \<^verbatim>\<open>Gpu\<close>
  (\<^verbatim>\<open>BuildHostEventFromNode\<close>). A pointer to it may be \<^verbatim>\<open>nil\<close>: an \<open>option\<close>.
\<close>

record 'n PelotonResources =
  Cpu :: 'n
  MemMb :: 'n
  DiskMb :: 'n
  Gpu :: 'n

text \<open>
  Modelled from the spec: \<^verbatim>\<open>hmscalar.Resources\<close>, its \<^verbatim>\<open>Add\<close> and
  \<^verbatim>\<open>FromPelotonResources\<close> (package \<^verbatim>\<open>pkg/hostmgr/scalar\<close>) are not among the
  sources. The specification gives a fixed-shape vector of cpu, mem, disk and gpu whose
  \<open>add\<close> returns a new vector, component by component: each component is the \<open>+\<close>
  of the two numbers, which at \<open>float64\<close> rounds and is not associative. The zero
  vector is the Go zero value of the struct. The conversion copies the four components
  and reads a \<^verbatim>\<open>nil\<close> message as zeros, as the generated protobuf getters do.
\<close>

record 'n Resources =
  CPU :: 'n
  Mem :: 'n
  Disk :: 'n
  GPU :: 'n

definition zeroResources :: "'n::zero Resources" where
  "zeroResources = \<lparr>CPU = 0, Mem = 0, Disk = 0, GPU = 0\<rparr>"


definition FromPelotonResources :: "'n::zero PelotonResources option \<Rightarrow> 'n Resources" where
  "FromPelotonResources r =
     (case r of
        None \<Rightarrow> zeroResources
      | Some p \<Rightarrow> \<lparr>CPU = Cpu p, Mem = MemMb p, Disk = DiskMb p, GPU = Gpu p\<rparr>)"

subsection \<open>Host events\<close>

text \<open>From the \<^verbatim>\<open>scalar\<close> package of the host cache: the event types and the host info.\<close>

datatype HostEventType = AddHost | UpdateHostSpec | DeleteHost | UpdateHostAvailableRes

record 'n HostInfo =
  hostname :: string
  podMap :: "string \<rightharpoonup> 'n PelotonResources"
  capacity :: "'n PelotonResources option"
  resourceVersion :: string
  available :: "'n PelotonResources option"

record 'n HostEvent =
  hostInfo :: "'n HostInfo"
  eventType :: HostEventType

text \<open>
  Modelled from the spec: \<^verbatim>\<open>scalar.PodEvent\<close> is not among the sources. Section 6
  of the specification gives it a hostname, a pod id, a kind and resources.
\<close>

datatype PodEventKind = Launch | Update | Kill | Evict

record 'n PodEvent =
  pe_hostname :: string
  pe_pod_id :: string
  pe_kind :: PodEventKind
  pe_resources :: "'n Resources"

subsection \<open>Host summaries\<close>

text \<open>
  Modelled from the spec: \<^verbatim>\<open>HostSummary\<close> is a Go interface whose implementations
  (\<^verbatim>\<open>newKubeletHostSummary\<close>, \<^verbatim>\<open>newMesosHostSummary\<close> and their methods) are not
  among the sources. The record has the fields of section 3 of the specification. The
  constructors follow section 4.4 (a Kubelet-kind summary with capacity and version; a
  Mesos-kind summary with a version) and section 4.2 (initial state \<open>Ready\<close>): no
  pods, nothing allocated, no holds, no lease. A Kubelet summary derives its available
  resources as capacity minus allocation, which is the capacity when nothing is
  allocated. The getters read a field and the three setters are unconditional.

  Time is an integer (a count of clock ticks); the zero time is \<open>0\<close>.
\<close>

type_synonym time = int

datatype HostKind = Kubelet | Mesos

datatype HostStatus = Ready | Placing | Held

record 'n HostSummary =
  hs_hostname :: string
  hs_capacity :: "'n Resources"
  hs_allocated :: "'n Resources"
  hs_available :: "'n Resources"
  hs_version :: string
  hs_kind :: HostKind
  hs_status :: HostStatus
  hs_lease_id :: "string option"
  hs_lease_expiry :: time
  hs_pods :: "string \<rightharpoonup> 'n Resources"
  hs_holds :: "string \<rightharpoonup> time"

definition newKubeletHostSummary ::
  "string \<Rightarrow> 'n::zero PelotonResources option \<Rightarrow> string \<Rightarrow> 'n HostSummary" where
  "newKubeletHostSummary name r version =
     \<lparr>hs_hostname = name,
      hs_capacity = FromPelotonResources r,
      hs_allocated = zeroResources,
      hs_available = FromPelotonResources r,
      hs_version = version,
      hs_kind = Kubelet,
      hs_status = Ready,
      hs_lease_id = None,
      hs_lease_expiry = 0,
      hs_pods = Map.empty,
      hs_holds = Map.empty\<rparr>"

definition newMesosHostSummary :: "string \<Rightarrow> string \<Rightarrow> 'n::zero HostSummary" where
  "newMesosHostSummary name version =
     \<lparr>hs_hostname = name,
      hs_capacity = zeroResources,
      hs_allocated = zeroResources,
      hs_available = zeroResources,
      hs_version = version,
      hs_kind = Mesos,
      hs_status = Ready,
      hs_lease_id = None,
      hs_lease_expiry = 0,
      hs_pods = Map.empty,
      hs_holds = Map.empty\<rparr>"

definition GetHostname :: "'n HostSummary \<Rightarrow> string" where
  "GetHostname hs = hs_hostname hs"

definition GetVersion :: "'n HostSummary \<Rightarrow> string" where
  "GetVersion hs = hs_version hs"

definition GetCapacity :: "'n HostSummary \<Rightarrow> 'n Resources" where
  "GetCapacity hs = hs_capacity hs"


definition SetCapacity :: "'n Resources \<Rightarrow> 'n HostSummary \<Rightarrow> 'n HostSummary" where
  "SetCapacity r hs = hs\<lparr>hs_capacity := r\<rparr>"

definition SetAvailable :: "'n Resources \<Rightarrow> 'n HostSummary \<Rightarrow> 'n HostSummary" where
  "SetAvailable r hs = hs\<lparr>hs_available := r\<rparr>"

definition SetVersion :: "string \<Rightarrow> 'n HostSummary \<Rightarrow> 'n HostSummary" where
  "SetVersion v hs = hs\<lparr>hs_version := v\<rparr>"

text \<open>
  Modelled from the spec: the lease object returned to callers (section 6) and
  \<^verbatim>\<open>GetHostLease\<close>, a copy of the current lease view of a summary (section 4.2).
\<close>

record 'n HostLease =
  lease_hostname :: string
  lease_id :: "string option"
  offered :: "'n Resources"
  expires_at :: time

definition GetHostLease :: "'n HostSummary \<Rightarrow> 'n HostLease" where
  "GetHostLease hs =
     \<lparr>lease_hostname = hs_hostname hs, lease_id = hs_lease_id hs,
      offered = hs_available hs, expires_at = hs_lease_expiry hs\<rparr>"

subsection \<open>Errors and panics\<close>

text \<open>
  The error tags of section 7 of the specification that reach a caller. \<open>NotFound\<close>
  carries the hostname of \<^verbatim>\<open>"cannot find host %s in cache"\<close>; \<open>Internal\<close> carries the
  errors that \<^verbatim>\<open>multierr.Combine\<close> joins into \<^verbatim>\<open>"failed to hold pods: %s"\<close>.
  A Go panic (a write to a \<^verbatim>\<open>nil\<close> map, a method call on a \<^verbatim>\<open>nil\<close> interface) is
  the outcome \<open>Panic s\<close>, with the state \<open>s\<close> in which the call is left.
\<close>

datatype error =
    NotFound string
  | InvalidLease
  | InsufficientResources
  | ConflictingStatus
  | Internal "error list"

datatype ('s, 'a) outcome = Panic 's | Returned 'a

subsection \<open>The cache\<close>

text \<open>
  \<^verbatim>\<open>hostIndex\<close> maps a hostname to its summary; \<^verbatim>\<open>podHeldIndex\<close> maps a pod id to
  the host held for it. \<^verbatim>\<open>New\<close> makes the host index and leaves \<^verbatim>\<open>podHeldIndex\<close>
  unset: a \<^verbatim>\<open>nil\<close> map (\<open>None\<close>), which reads as empty, ignores \<^verbatim>\<open>delete\<close> and
  panics on assignment.
\<close>

record 'n hostCache =
  hostIndex :: "string \<rightharpoonup> 'n HostSummary"
  podHeldIndex :: "(string \<rightharpoonup> string) option"

definition New :: "'n hostCache" where
  "New = \<lparr>hostIndex = Map.empty, podHeldIndex = None\<rparr>"

section \<open>The operations of the cache\<close>

text \<open>
  \<^verbatim>\<open>HostSummary\<close> is an interface: the cache calls \<^verbatim>\<open>TerminateLease\<close>,
  \<^verbatim>\<open>CompleteLease\<close>, \<^verbatim>\<open>HoldForPod\<close>, \<^verbatim>\<open>ReleaseHoldForPod\<close>,
  \<^verbatim>\<open>DeleteExpiredHolds\<close> and \<^verbatim>\<open>HandlePodEvent\<close> and, through the matcher,
  the try of a host, on whatever implementation the index holds. Each cache operation
  below takes the method it calls as its first argument, a
  function on summaries that returns the method's results and the summary as the call
  leaves it. Section \<open>Host summary methods\<close> gives the methods as the specification
  describes them. \<^verbatim>\<open>GetSummaries\<close>, \<^verbatim>\<open>Start\<close>, \<^verbatim>\<open>Stop\<close> and
  \<^verbatim>\<open>Reconcile\<close> play no part in the properties below and are left out.
\<close>

subsection \<open>Lookups\<close>

definition getSummary :: "string \<Rightarrow> 'n hostCache \<Rightarrow> error + 'n HostSummary" where
  "getSummary name c =
     (case hostIndex c name of
        None \<Rightarrow> Inl (NotFound name)
      | Some hs \<Rightarrow> Inr hs)"

definition GetHostHeldForPod :: "string \<Rightarrow> 'n hostCache \<Rightarrow> string" where
  "GetHostHeldForPod podID c =
     (case podHeldIndex c of
        None \<Rightarrow> ''''
      | Some idx \<Rightarrow> (case idx podID of None \<Rightarrow> '''' | Some hn \<Rightarrow> hn))"

subsection \<open>The index of held pods\<close>

text \<open>
  \<^verbatim>\<open>addPodHold\<close> assigns into the map, replacing the old host if there is one (the
  source only logs a warning then); on a \<^verbatim>\<open>nil\<close> map the assignment panics.
  \<^verbatim>\<open>removePodHold\<close> deletes the pod whatever host it names; \<^verbatim>\<open>delete\<close> on a
  \<^verbatim>\<open>nil\<close> map does nothing.
\<close>

definition addPodHold ::
  "string \<Rightarrow> string \<Rightarrow> (string \<rightharpoonup> string) option \<Rightarrow>
   ((string \<rightharpoonup> string) option, (string \<rightharpoonup> string) option) outcome" where
  "addPodHold name podID pidx =
     (case pidx of
        None \<Rightarrow> Panic None
      | Some idx \<Rightarrow> Returned (Some (idx(podID \<mapsto> name))))"

definition removePodHold ::
  "string \<Rightarrow> (string \<rightharpoonup> string) option \<Rightarrow> (string \<rightharpoonup> string) option" where
  "removePodHold podID pidx =
     (case pidx of
        None \<Rightarrow> None
      | Some idx \<Rightarrow> Some (idx(podID := None)))"

subsection \<open>Leases\<close>

definition TerminateLease ::
  "(string \<Rightarrow> 'n HostSummary \<Rightarrow> error option \<times> 'n HostSummary) \<Rightarrow>
   string \<Rightarrow> string \<Rightarrow> 'n hostCache \<Rightarrow> error option \<times> 'n hostCache" where
  "TerminateLease terminate name leaseID c =
     (case getSummary name c of
        Inl err \<Rightarrow> (Some err, c)
      | Inr hs \<Rightarrow>
          (case terminate leaseID hs of
             (err, hs') \<Rightarrow> (err, c\<lparr>hostIndex := (hostIndex c)(name \<mapsto> hs')\<rparr>)))"

definition CompleteLease ::
  "(string \<Rightarrow> (string \<rightharpoonup> 'n Resources) \<Rightarrow> 'n HostSummary \<Rightarrow> error option \<times> 'n HostSummary) \<Rightarrow>
   string \<Rightarrow> string \<Rightarrow> (string \<rightharpoonup> 'n Resources) \<Rightarrow> 'n hostCache \<Rightarrow>
   error option \<times> 'n hostCache" where
  "CompleteLease completeFn name leaseID podToResMap c =
     (case getSummary name c of
        Inl err \<Rightarrow> (Some err, c)
      | Inr hs \<Rightarrow>
          (case completeFn leaseID podToResMap hs of
             (err, hs') \<Rightarrow> (err, c\<lparr>hostIndex := (hostIndex c)(name \<mapsto> hs')\<rparr>)))"

subsection \<open>Holds\<close>

text \<open>
  The loop of \<^verbatim>\<open>HoldForPods\<close>: a pod whose hold fails adds its error and the loop
  continues; a pod whose hold succeeds is entered into \<^verbatim>\<open>podHeldIndex\<close>. The loop
  state is the summary, the index and the errors so far. When \<^verbatim>\<open>addPodHold\<close>
  panics, the summary has taken the hold already: the call is left with the summary
  as \<^verbatim>\<open>HoldForPod\<close> changed it and with the index as it was.
\<close>

fun holdLoop ::
  "(string \<Rightarrow> 'n HostSummary \<Rightarrow> error option \<times> 'n HostSummary) \<Rightarrow> string \<Rightarrow> string list \<Rightarrow>
   'n HostSummary \<times> (string \<rightharpoonup> string) option \<times> error list \<Rightarrow>
   ('n HostSummary \<times> (string \<rightharpoonup> string) option \<times> error list,
    'n HostSummary \<times> (string \<rightharpoonup> string) option \<times> error list) outcome" where
  "holdLoop hold name [] st = Returned st"
| "holdLoop hold name (podID # ids) (hs, pidx, errs) =
     (case hold podID hs of
        (Some err, hs') \<Rightarrow> holdLoop hold name ids (hs', pidx, errs @ [err])
      | (None, hs') \<Rightarrow>
          (case addPodHold name podID pidx of
             Panic pidx' \<Rightarrow> Panic (hs', pidx', errs)
           | Returned pidx' \<Rightarrow> holdLoop hold name ids (hs', pidx', errs)))"

definition HoldForPods ::
  "(string \<Rightarrow> 'n HostSummary \<Rightarrow> error option \<times> 'n HostSummary) \<Rightarrow>
   string \<Rightarrow> string list \<Rightarrow> 'n hostCache \<Rightarrow>
   ('n hostCache, error option \<times> 'n hostCache) outcome" where
  "HoldForPods hold name podIDs c =
     (case getSummary name c of
        Inl err \<Rightarrow> Returned (Some err, c)
      | Inr hs \<Rightarrow>
          (case holdLoop hold name podIDs (hs, podHeldIndex c, []) of
             Panic (hs', pidx', errs) \<Rightarrow>
               Panic (c\<lparr>hostIndex := (hostIndex c)(name \<mapsto> hs'), podHeldIndex := pidx'\<rparr>)
           | Returned (hs', pidx', errs) \<Rightarrow>
               Returned
                 (if 0 < length errs then Some (Internal errs) else None,
                  c\<lparr>hostIndex := (hostIndex c)(name \<mapsto> hs'), podHeldIndex := pidx'\<rparr>)))"

fun releaseLoop ::
  "(string \<Rightarrow> 'n HostSummary \<Rightarrow> 'n HostSummary) \<Rightarrow> string list \<Rightarrow>
   'n HostSummary \<times> (string \<rightharpoonup> string) option \<Rightarrow>
   'n HostSummary \<times> (string \<rightharpoonup> string) option" where
  "releaseLoop release [] st = st"
| "releaseLoop release (podID # ids) (hs, pidx) =
     releaseLoop release ids (release podID hs, removePodHold podID pidx)"

definition ReleaseHoldForPods ::
  "(string \<Rightarrow> 'n HostSummary \<Rightarrow> 'n HostSummary) \<Rightarrow>
   string \<Rightarrow> string list \<Rightarrow> 'n hostCache \<Rightarrow> error option \<times> 'n hostCache" where
  "ReleaseHoldForPods release name podIDs c =
     (case getSummary name c of
        Inl err \<Rightarrow> (Some err, c)
      | Inr hs \<Rightarrow>
          (case releaseLoop release podIDs (hs, podHeldIndex c) of
             (hs', pidx') \<Rightarrow>
               (None, c\<lparr>hostIndex := (hostIndex c)(name \<mapsto> hs'), podHeldIndex := pidx'\<rparr>)))"

text \<open>
  \<^verbatim>\<open>ResetExpiredHeldHostSummaries\<close> ranges over the host index. The method returns
  whether the host was freed, a value the cache ignores, and the pods whose hold
  expired; each of these leaves \<^verbatim>\<open>podHeldIndex\<close>.
\<close>

fun resetLoop ::
  "(time \<Rightarrow> 'n HostSummary \<Rightarrow> (bool \<times> string list) \<times> 'n HostSummary) \<Rightarrow> time \<Rightarrow> string list \<Rightarrow>
   string list \<times> 'n hostCache \<Rightarrow> string list \<times> 'n hostCache" where
  "resetLoop delExpired deadline [] st = st"
| "resetLoop delExpired deadline (name # rest) (ret, c) =
     (case hostIndex c name of
        None \<Rightarrow> resetLoop delExpired deadline rest (ret, c)
      | Some hs \<Rightarrow>
          (case delExpired deadline hs of
             ((isFreed, podIDExpired), hs') \<Rightarrow>
               resetLoop delExpired deadline rest
                 (if isFreed then ret @ [name] else ret,
                  c\<lparr>hostIndex := (hostIndex c)(name \<mapsto> hs'),
                    podHeldIndex := fold removePodHold podIDExpired (podHeldIndex c)\<rparr>)))"

definition ResetExpiredHeldHostSummaries ::
  "(time \<Rightarrow> 'n HostSummary \<Rightarrow> (bool \<times> string list) \<times> 'n HostSummary) \<Rightarrow>
   string list \<Rightarrow> time \<Rightarrow> 'n hostCache \<Rightarrow> string list \<times> 'n hostCache" where
  "ResetExpiredHeldHostSummaries delExpired order deadline c =
     resetLoop delExpired deadline order ([], c)"

subsection \<open>Cluster capacity\<close>



subsection \<open>Host events\<close>

text \<open>
  The four handlers of \<^verbatim>\<open>waitForHostEvents\<close>. \<^verbatim>\<open>addHost\<close> and \<^verbatim>\<open>deleteHost\<close>
  test the version only when the host exists; \<^verbatim>\<open>updateHostSpec\<close> ignores an event
  for an unknown host; \<^verbatim>\<open>updateHostAvailable\<close> has no version test. The switch
  of \<^verbatim>\<open>waitForHostEvents\<close> ignores an event type other than the four constants,
  which are all that the datatype has.
\<close>

definition addHost :: "'n::zero HostEvent \<Rightarrow> 'n hostCache \<Rightarrow> 'n hostCache" where
  "addHost event c =
     (let info = hostInfo event;
          version = resourceVersion info;
          cap = capacity info
      in case hostIndex c (hostname info) of
           Some existing \<Rightarrow>
             (let evtVersion = resourceVersion info;
                  currentVersion = GetVersion existing
              in if IsOldVersion currentVersion evtVersion then c
                 else c\<lparr>hostIndex := (hostIndex c)
                        (hostname info \<mapsto> newKubeletHostSummary (hostname info) cap version)\<rparr>)
         | None \<Rightarrow>
             c\<lparr>hostIndex := (hostIndex c)
                (hostname info \<mapsto> newKubeletHostSummary (hostname info) cap version)\<rparr>)"

definition updateHostSpec :: "'n::zero HostEvent \<Rightarrow> 'n hostCache \<Rightarrow> 'n hostCache" where
  "updateHostSpec event c =
     (let info = hostInfo event;
          evtVersion = resourceVersion info;
          cap = capacity info
      in case hostIndex c (hostname info) of
           None \<Rightarrow> c
         | Some hs \<Rightarrow>
             (let currentVersion = GetVersion hs
              in if IsOldVersion currentVersion evtVersion then c
                 else (let r = FromPelotonResources cap
                       in c\<lparr>hostIndex := (hostIndex c)
                              (hostname info \<mapsto> SetVersion evtVersion (SetCapacity r hs))\<rparr>)))"

definition deleteHost :: "'n HostEvent \<Rightarrow> 'n hostCache \<Rightarrow> 'n hostCache" where
  "deleteHost event c =
     (let info = hostInfo event
      in case hostIndex c (hostname info) of
           Some existing \<Rightarrow>
             (let evtVersion = resourceVersion info;
                  currentVersion = GetVersion existing
              in if IsOldVersion currentVersion evtVersion then c
                 else c\<lparr>hostIndex := (hostIndex c)(hostname info := None)\<rparr>)
         | None \<Rightarrow> c\<lparr>hostIndex := (hostIndex c)(hostname info := None)\<rparr>)"

definition updateHostAvailable :: "'n::zero HostEvent \<Rightarrow> 'n hostCache \<Rightarrow> 'n hostCache" where
  "updateHostAvailable event c =
     (let info = hostInfo event;
          evtVersion = resourceVersion info;
          hs = (case hostIndex c (hostname info) of
                  None \<Rightarrow> newMesosHostSummary (hostname info) evtVersion
                | Some hs \<Rightarrow> hs);
          r = FromPelotonResources (available info)
      in c\<lparr>hostIndex := (hostIndex c)
             (hostname info \<mapsto> SetVersion evtVersion (SetAvailable r hs))\<rparr>)"

definition handleHostEvent :: "'n::zero HostEvent \<Rightarrow> 'n hostCache \<Rightarrow> 'n hostCache" where
  "handleHostEvent event c =
     (case eventType event of
        AddHost \<Rightarrow> addHost event c
      | UpdateHostSpec \<Rightarrow> updateHostSpec event c
      | DeleteHost \<Rightarrow> deleteHost event c
      | UpdateHostAvailableRes \<Rightarrow> updateHostAvailable event c)"

text \<open>
  \<^verbatim>\<open>handlePodEvent\<close> passes the event to the summary of its host and ignores an
  event for an unknown host. The error of the method is only logged.
\<close>

definition handlePodEvent ::
  "('n PodEvent \<Rightarrow> 'n HostSummary \<Rightarrow> error option \<times> 'n HostSummary) \<Rightarrow>
   'n PodEvent \<Rightarrow> 'n hostCache \<Rightarrow> 'n hostCache" where
  "handlePodEvent handle event c =
     (case hostIndex c (pe_hostname event) of
        None \<Rightarrow> c
      | Some summary \<Rightarrow>
          c\<lparr>hostIndex := (hostIndex c)(pe_hostname event \<mapsto> snd (handle event summary))\<rparr>)"

subsection \<open>Matching hosts\<close>

text \<open>
  Modelled from the spec: the host filter and the matcher (\<^verbatim>\<open>NewMatcher\<close>,
  \<^verbatim>\<open>tryMatch\<close>, \<^verbatim>\<open>hostLimitReached\<close>) are not among the sources; only the fields
  \<^verbatim>\<open>hostNames\<close> and \<^verbatim>\<open>filterCounts\<close>, which \<^verbatim>\<open>AcquireLeases\<close> reads, are.
  Section 4.3 of the specification: the filter has a resource constraint, a list of
  hinted hostnames and a cap on the number of hosts (none by default); the matcher keeps
  the ordered list of matched hostnames, the count of each reason and the cap. A try
  when the cap is reached matches nothing and is tallied \<^verbatim>\<open>MATCH_MAX_HOST_LIMIT\<close>;
  otherwise \<^verbatim>\<open>tryMatch\<close> asks the summary, records the hostname on a match and
  increments the count of the reason on a non-match.

  What \<^verbatim>\<open>tryMatch\<close> calls on the summary is the argument \<open>tm\<close>, which returns
  the result and the summary as the call leaves it. \<^verbatim>\<open>AcquireLeases\<close> in the
  source calls nothing on a matched summary but \<^verbatim>\<open>GetHostLease\<close>, and its comment
  says that it acquires a lease on each host that matches: the lease is taken by the
  try (\<^verbatim>\<open>TryMatch\<close> followed by \<^verbatim>\<open>AcquireLease\<close>, section 5 of the
  specification; \<open>matchAndAcquire\<close> below). The label and scheduling constraints of
  a filter are part of what \<open>tm\<close> decides.
\<close>

datatype MatchResult = Matched | Mismatch string

record 'n HostFilter =
  resource_constraint :: "'n Resources"
  hint :: "string list"
  max_hosts :: "nat option"

record 'n Matcher =
  m_hostFilter :: "'n HostFilter"
  hostNames :: "string list"
  filterCounts :: "string \<rightharpoonup> nat"
  host_limit :: "nat option"

definition NewMatcher :: "'n HostFilter \<Rightarrow> 'n Matcher" where
  "NewMatcher hostFilter =
     \<lparr>m_hostFilter = hostFilter, hostNames = [], filterCounts = Map.empty,
      host_limit = max_hosts hostFilter\<rparr>"

definition increment :: "(string \<rightharpoonup> nat) \<Rightarrow> string \<Rightarrow> (string \<rightharpoonup> nat)" where
  "increment counts reason =
     counts(reason \<mapsto> (case counts reason of None \<Rightarrow> 1 | Some k \<Rightarrow> k + 1))"

definition hostLimitReached :: "'n Matcher \<Rightarrow> bool" where
  "hostLimitReached m =
     (case host_limit m of
        None \<Rightarrow> False
      | Some n \<Rightarrow> n \<le> length (hostNames m))"

definition tryMatch ::
  "('n HostFilter \<Rightarrow> 'n HostSummary \<Rightarrow> MatchResult \<times> 'n HostSummary) \<Rightarrow> string \<Rightarrow>
   'n HostSummary \<Rightarrow> 'n Matcher \<Rightarrow> 'n Matcher \<times> 'n HostSummary" where
  "tryMatch tm name hs m =
     (if hostLimitReached m
      then (m\<lparr>filterCounts := increment (filterCounts m) ''MATCH_MAX_HOST_LIMIT''\<rparr>, hs)
      else (case tm (m_hostFilter m) hs of
              (Matched, hs') \<Rightarrow> (m\<lparr>hostNames := hostNames m @ [name]\<rparr>, hs')
            | (Mismatch reason, hs') \<Rightarrow>
                (m\<lparr>filterCounts := increment (filterCounts m) reason\<rparr>, hs')))"

text \<open>
  \<^verbatim>\<open>AcquireLeases\<close>, from the source. The first loop goes through the hints in
  their order and tries the hinted hosts that the index has, under the summary's own
  hostname. The second loop ranges over the whole index, hinted hosts included. Both
  stop once the cap is reached, after the try. The state of a loop is the matcher and
  the index, in which a try leaves the summary as the method changed it. The leases
  are then read from the index by matched hostname; a hostname that the index lacks
  gives a \<^verbatim>\<open>nil\<close> summary, and the method call on it panics.
\<close>

fun hintLoop ::
  "('n HostFilter \<Rightarrow> 'n HostSummary \<Rightarrow> MatchResult \<times> 'n HostSummary) \<Rightarrow> string list \<Rightarrow>
   'n Matcher \<times> (string \<rightharpoonup> 'n HostSummary) \<Rightarrow> 'n Matcher \<times> (string \<rightharpoonup> 'n HostSummary)" where
  "hintLoop tm [] st = st"
| "hintLoop tm (filterHint # rest) (m, idx) =
     (case idx filterHint of
        Some hs \<Rightarrow>
          (case tryMatch tm (GetHostname hs) hs m of
             (m', hs') \<Rightarrow>
               if hostLimitReached m' then (m', idx(filterHint \<mapsto> hs'))
               else hintLoop tm rest (m', idx(filterHint \<mapsto> hs')))
      | None \<Rightarrow> hintLoop tm rest (m, idx))"

fun rangeLoop ::
  "('n HostFilter \<Rightarrow> 'n HostSummary \<Rightarrow> MatchResult \<times> 'n HostSummary) \<Rightarrow> string list \<Rightarrow>
   'n Matcher \<times> (string \<rightharpoonup> 'n HostSummary) \<Rightarrow> 'n Matcher \<times> (string \<rightharpoonup> 'n HostSummary)" where
  "rangeLoop tm [] st = st"
| "rangeLoop tm (name # rest) (m, idx) =
     (case idx name of
        Some hs \<Rightarrow>
          (case tryMatch tm name hs m of
             (m', hs') \<Rightarrow>
               if hostLimitReached m' then (m', idx(name \<mapsto> hs'))
               else rangeLoop tm rest (m', idx(name \<mapsto> hs')))
      | None \<Rightarrow> rangeLoop tm rest (m, idx))"

fun leaseLoop ::
  "(string \<rightharpoonup> 'n HostSummary) \<Rightarrow> string list \<Rightarrow> (unit, 'n HostLease list) outcome" where
  "leaseLoop idx [] = Returned []"
| "leaseLoop idx (name # rest) =
     (case idx name of
        None \<Rightarrow> Panic ()
      | Some hs \<Rightarrow>
          (case leaseLoop idx rest of
             Panic u \<Rightarrow> Panic u
           | Returned leases \<Rightarrow> Returned (GetHostLease hs # leases)))"

definition runMatcher ::
  "('n HostFilter \<Rightarrow> 'n HostSummary \<Rightarrow> MatchResult \<times> 'n HostSummary) \<Rightarrow> string list \<Rightarrow>
   'n HostFilter \<Rightarrow> 'n hostCache \<Rightarrow> 'n Matcher \<times> (string \<rightharpoonup> 'n HostSummary)" where
  "runMatcher tm order hostFilter c =
     rangeLoop tm order (hintLoop tm (hint hostFilter) (NewMatcher hostFilter, hostIndex c))"

definition AcquireLeases ::
  "('n HostFilter \<Rightarrow> 'n HostSummary \<Rightarrow> MatchResult \<times> 'n HostSummary) \<Rightarrow> string list \<Rightarrow>
   'n HostFilter \<Rightarrow> 'n hostCache \<Rightarrow>
   ('n hostCache, 'n HostLease list \<times> (string \<rightharpoonup> nat) \<times> 'n hostCache) outcome" where
  "AcquireLeases tm order hostFilter c =
     (case runMatcher tm order hostFilter c of
        (matcher, idx') \<Rightarrow>
          (case leaseLoop idx' (hostNames matcher) of
             Panic u \<Rightarrow> Panic (c\<lparr>hostIndex := idx'\<rparr>)
           | Returned hostLeases \<Rightarrow>
               Returned (hostLeases, filterCounts matcher, c\<lparr>hostIndex := idx'\<rparr>)))"

section \<open>Host summary methods\<close>

text \<open>
  Modelled from the spec: the methods of the summaries are not among the sources.
  Section 4.2 of the specification:
  \<^item> \<^verbatim>\<open>HoldForPod\<close> adds the pod with the expiry \<open>now + hold_ttl\<close> to the holds and
    leaves the host \<open>Held\<close>; it fails with \<open>ConflictingStatus\<close> on a \<open>Placing\<close> host.
  \<^item> \<^verbatim>\<open>ReleaseHoldForPod\<close> removes the entry; a \<open>Held\<close> host whose holds become
    empty is \<open>Ready\<close>.
  \<^item> \<^verbatim>\<open>DeleteExpiredHolds\<close> removes every hold whose expiry is at most \<open>now\<close> and
    returns whether the host left \<open>Held\<close> and the pods removed. The holds are a Go
    map, so the argument \<open>keys\<close> is the order in which they are visited.
  \<^item> \<^verbatim>\<open>TryMatch\<close> is read-only: a host that is neither \<open>Ready\<close> nor \<open>Held\<close> gives
    \<^verbatim>\<open>MISMATCH_STATUS\<close>, a host whose available resources do not contain the
    filter's minimum gives \<^verbatim>\<open>INSUFFICIENT_RESOURCES\<close>. Labels and scheduling
    constraints are not modelled (a filter that sets none), nor is the tolerance of the
    comparison.
  \<^item> \<^verbatim>\<open>AcquireLease\<close>, which is called when \<^verbatim>\<open>TryMatch\<close> succeeds, leaves the
    host \<open>Placing\<close> with a fresh lease id and the expiry \<open>now + lease_ttl\<close>.
    \<open>matchAndAcquire\<close> is the two in a row, which is what a try of the matcher does
    to a summary; the fresh lease id is given by the argument \<open>mint\<close>.
  The clock and the times-to-live are arguments.
\<close>

definition HoldForPod ::
  "time \<Rightarrow> time \<Rightarrow> string \<Rightarrow> 'n HostSummary \<Rightarrow> error option \<times> 'n HostSummary" where
  "HoldForPod now hold_ttl podID hs =
     (if hs_status hs = Placing then (Some ConflictingStatus, hs)
      else (None, hs\<lparr>hs_status := Held,
                      hs_holds := (hs_holds hs)(podID \<mapsto> now + hold_ttl)\<rparr>))"

definition ReleaseHoldForPod :: "string \<Rightarrow> 'n HostSummary \<Rightarrow> 'n HostSummary" where
  "ReleaseHoldForPod podID hs =
     (let holds' = (hs_holds hs)(podID := None)
      in hs\<lparr>hs_status := (if hs_status hs = Held \<and> holds' = Map.empty then Ready
                           else hs_status hs),
            hs_holds := holds'\<rparr>)"

definition DeleteExpiredHolds ::
  "string list \<Rightarrow> time \<Rightarrow> 'n HostSummary \<Rightarrow> (bool \<times> string list) \<times> 'n HostSummary" where
  "DeleteExpiredHolds keys now hs =
     (let expired =
            filter (\<lambda>p. case hs_holds hs p of None \<Rightarrow> False | Some t \<Rightarrow> t \<le> now) keys;
          holds' = (\<lambda>p. if p \<in> set expired then None else hs_holds hs p);
          freed = (hs_status hs = Held \<and> holds' = Map.empty)
      in ((freed, expired),
          hs\<lparr>hs_status := (if freed then Ready else hs_status hs), hs_holds := holds'\<rparr>))"

definition Contains :: "'n::ord Resources \<Rightarrow> 'n Resources \<Rightarrow> bool" where
  "Contains r other =
     (CPU other \<le> CPU r \<and> Mem other \<le> Mem r \<and> Disk other \<le> Disk r \<and> GPU other \<le> GPU r)"

definition TryMatch :: "'n::ord HostFilter \<Rightarrow> 'n HostSummary \<Rightarrow> MatchResult" where
  "TryMatch hostFilter hs =
     (if hs_status hs \<noteq> Ready \<and> hs_status hs \<noteq> Held then Mismatch ''MISMATCH_STATUS''
      else if \<not> Contains (hs_available hs) (resource_constraint hostFilter)
        then Mismatch ''INSUFFICIENT_RESOURCES''
      else Matched)"

definition AcquireLease :: "time \<Rightarrow> time \<Rightarrow> string \<Rightarrow> 'n HostSummary \<Rightarrow> 'n HostSummary" where
  "AcquireLease now lease_ttl leaseID hs =
     hs\<lparr>hs_status := Placing, hs_lease_id := Some leaseID, hs_lease_expiry := now + lease_ttl\<rparr>"

definition matchAndAcquire ::
  "time \<Rightarrow> time \<Rightarrow> ('n HostSummary \<Rightarrow> string) \<Rightarrow> 'n::ord HostFilter \<Rightarrow> 'n HostSummary \<Rightarrow>
   MatchResult \<times> 'n HostSummary" where
  "matchAndAcquire now lease_ttl mint hostFilter hs =
     (case TryMatch hostFilter hs of
        Matched \<Rightarrow> (Matched, AcquireLease now lease_ttl (mint hs) hs)
      | Mismatch reason \<Rightarrow> (Mismatch reason, hs))"

text \<open>
  Modelled from the spec: \<^verbatim>\<open>TerminateLease\<close> of a summary (section 4.2; the cache
  operation of the same name is above, so this one is \<open>hsTerminateLease\<close>) takes a
  \<open>Placing\<close> host whose lease id matches out of \<open>Placing\<close> and fails with
  \<open>InvalidLease\<close> otherwise; a host with holds is \<open>Held\<close> when it is not \<open>Placing\<close>.
\<close>

definition hsTerminateLease :: "string \<Rightarrow> 'n HostSummary \<Rightarrow> error option \<times> 'n HostSummary" where
  "hsTerminateLease leaseID hs =
     (if hs_status hs = Placing \<and> hs_lease_id hs = Some leaseID
      then (None, hs\<lparr>hs_status := (if hs_holds hs = Map.empty then Ready else Held),
                      hs_lease_id := None\<rparr>)
      else (Some InvalidLease, hs))"

section \<open>Notions of the specification\<close>

subsection \<open>Builders of events\<close>

text \<open>
  \<^verbatim>\<open>BuildHostEventFromResource\<close>, from the source: an event that carries available
  resources and neither a capacity nor a resource version. \<open>hostEvent\<close> writes an
  event out field by field, as \<^verbatim>\<open>BuildHostEventFromNode\<close> fills them from a node.
\<close>

definition BuildHostEventFromResource ::
  "string \<Rightarrow> 'n::zero PelotonResources option \<Rightarrow> HostEventType \<Rightarrow> 'n HostEvent" where
  "BuildHostEventFromResource name resources e =
     \<lparr>hostInfo =
        \<lparr>hostname = name,
         podMap = Map.empty,
         capacity = None,
         resourceVersion = '''',
         available =
           Some (case resources of
                   None \<Rightarrow> \<lparr>Cpu = 0, MemMb = 0, DiskMb = 0, Gpu = 0\<rparr>
                 | Some r \<Rightarrow> r)\<rparr>,
      eventType = e\<rparr>"

definition hostEvent ::
  "HostEventType \<Rightarrow> string \<Rightarrow> 'n PelotonResources option \<Rightarrow> string \<Rightarrow> 'n HostEvent" where
  "hostEvent e name cap version =
     \<lparr>hostInfo =
        \<lparr>hostname = name, podMap = Map.empty, capacity = cap,
         resourceVersion = version, available = None\<rparr>,
      eventType = e\<rparr>"

subsection \<open>Sums over the index\<close>




text \<open>
  The \<^verbatim>\<open>float64\<close> values that the decimal numbers 0.1, 0.2, 0.3, 0.6 and
  0.6000000000000001 denote in a Go program (\<^verbatim>\<open>0x1.999999999999ap-4\<close>,
  \<^verbatim>\<open>0x1.999999999999ap-3\<close>, \<^verbatim>\<open>0x1.3333333333333p-2\<close>,
  \<^verbatim>\<open>0x1.3333333333333p-1\<close>, \<^verbatim>\<open>0x1.3333333333334p-1\<close>), and a cache that
  three \<^verbatim>\<open>AddHost\<close> events fill with hosts of 0.1, 0.2 and 0.3 cpu.
\<close>

definition f0_1 :: float64 where
  "f0_1 = Finite 7205759403792794 (- 56)"

definition f0_2 :: float64 where
  "f0_2 = Finite 7205759403792794 (- 55)"

definition f0_3 :: float64 where
  "f0_3 = Finite 5404319552844595 (- 54)"



text \<open>
  The \<^verbatim>\<open>float64\<close> values 1, 2, \<open>10^16\<close> and \<open>10^16 + 2\<close>; the number
  \<open>10^16 + 1\<close> is not a \<^verbatim>\<open>float64\<close> value.
\<close>

definition f1 :: float64 where
  "f1 = Finite 4503599627370496 (- 52)"

definition f2 :: float64 where
  "f2 = Finite 4503599627370496 (- 51)"

definition f1e16 :: float64 where
  "f1e16 = Finite 5000000000000000 1"

definition f1e16plus2 :: float64 where
  "f1e16plus2 = Finite 5000000000000001 1"



subsection \<open>Example states\<close>

definition cap1 :: "rat PelotonResources" where
  "cap1 = \<lparr>Cpu = 4, MemMb = 8192, DiskMb = 10000, Gpu = 0\<rparr>"

definition cap2 :: "rat PelotonResources" where
  "cap2 = \<lparr>Cpu = 2, MemMb = 4096, DiskMb = 10000, Gpu = 0\<rparr>"

text \<open>A host that runs a pod, holds a pod and is leased.\<close>

definition busyHost :: "rat HostSummary" where
  "busyHost =
     \<lparr>hs_hostname = ''h1'',
      hs_capacity = FromPelotonResources (Some cap1),
      hs_allocated = FromPelotonResources (Some cap2),
      hs_available = FromPelotonResources (Some cap2),
      hs_version = ''5'',
      hs_kind = Kubelet,
      hs_status = Placing,
      hs_lease_id = Some ''lease-1'',
      hs_lease_expiry = 120,
      hs_pods = [''p1'' \<mapsto> FromPelotonResources (Some cap2)],
      hs_holds = [''p2'' \<mapsto> 300]\<rparr>"

definition busyCache :: "rat hostCache" where
  "busyCache = \<lparr>hostIndex = [''h1'' \<mapsto> busyHost], podHeldIndex = Some [''p2'' \<mapsto> ''h1'']\<rparr>"

text \<open>Two ready hosts, \<open>a\<close> and \<open>b\<close>, with nothing held.\<close>

definition twoHosts :: "rat hostCache" where
  "twoHosts =
     \<lparr>hostIndex = [''a'' \<mapsto> newKubeletHostSummary ''a'' (Some cap1) ''1'',
                   ''b'' \<mapsto> newKubeletHostSummary ''b'' (Some cap2) ''1''],
      podHeldIndex = Some Map.empty\<rparr>"

subsection \<open>The course of a \<^verbatim>\<open>HoldForPods\<close> call\<close>

text \<open>
  What the calls of \<^verbatim>\<open>HoldForPod\<close> on the pods of a list give, one after the other
  on the same summary: the error of each pod (or none), the errors in their order, the
  pods whose hold succeeded, and the summary after the last call.
\<close>

fun holdOutcomes ::
  "(string \<Rightarrow> 'n HostSummary \<Rightarrow> error option \<times> 'n HostSummary) \<Rightarrow> string list \<Rightarrow>
   'n HostSummary \<Rightarrow> (string \<times> error option) list" where
  "holdOutcomes hold [] hs = []"
| "holdOutcomes hold (p # ps) hs = (p, fst (hold p hs)) # holdOutcomes hold ps (snd (hold p hs))"

definition holdErrors ::
  "(string \<Rightarrow> 'n HostSummary \<Rightarrow> error option \<times> 'n HostSummary) \<Rightarrow> string list \<Rightarrow>
   'n HostSummary \<Rightarrow> error list" where
  "holdErrors hold ps hs = List.map_filter snd (holdOutcomes hold ps hs)"

definition holdSucceeded ::
  "(string \<Rightarrow> 'n HostSummary \<Rightarrow> error option \<times> 'n HostSummary) \<Rightarrow> string list \<Rightarrow>
   'n HostSummary \<Rightarrow> string list" where
  "holdSucceeded hold ps hs = map fst (filter (\<lambda>r. snd r = None) (holdOutcomes hold ps hs))"

definition holdFinal ::
  "(string \<Rightarrow> 'n HostSummary \<Rightarrow> error option \<times> 'n HostSummary) \<Rightarrow> string list \<Rightarrow>
   'n HostSummary \<Rightarrow> 'n HostSummary" where
  "holdFinal hold ps hs = foldl (\<lambda>s p. snd (hold p s)) hs ps"

definition recordHolds :: "string \<Rightarrow> string list \<Rightarrow> (string \<rightharpoonup> string) \<Rightarrow> (string \<rightharpoonup> string)" where
  "recordHolds name ps idx = fold (\<lambda>p m. m(p \<mapsto> name)) ps idx"

text \<open>
  The summary as the first hold that succeeds leaves it: the state of the summary when
  \<^verbatim>\<open>addPodHold\<close> is called for the first time.
\<close>

fun heldAtFirst ::
  "(string \<Rightarrow> 'n HostSummary \<Rightarrow> error option \<times> 'n HostSummary) \<Rightarrow> string list \<Rightarrow>
   'n HostSummary \<Rightarrow> 'n HostSummary" where
  "heldAtFirst hold [] hs = hs"
| "heldAtFirst hold (p # ps) hs =
     (if fst (hold p hs) = None then snd (hold p hs) else heldAtFirst hold ps (snd (hold p hs)))"

text \<open>A method that keeps the holds a summary has, and adds the pod when it succeeds.\<close>

definition keepsHolds ::
  "(string \<Rightarrow> 'n HostSummary \<Rightarrow> error option \<times> 'n HostSummary) \<Rightarrow> bool" where
  "keepsHolds hold =
     (\<forall>p s. dom (hs_holds s) \<subseteq> dom (hs_holds (snd (hold p s)))
          \<and> (fst (hold p s) = None \<longrightarrow> p \<in> dom (hs_holds (snd (hold p s)))))"

text \<open>An implementation that refuses one pod and holds the others as specified.\<close>

definition holdAllBut ::
  "string \<Rightarrow> string \<Rightarrow> 'n HostSummary \<Rightarrow> error option \<times> 'n HostSummary" where
  "holdAllBut refused podID hs =
     (if podID = refused then (Some ConflictingStatus, hs) else HoldForPod 0 300 podID hs)"

subsection \<open>The outcome of matching\<close>

text \<open>
  A host of the index is eligible for a filter when a try on its summary matches.
  A method \<open>tm\<close> acquires when it keeps the hostname of the summary, leaves a summary
  that it has matched in a state where it does not match again (\<open>Placing\<close>, for
  \<^verbatim>\<open>AcquireLease\<close>), and leaves a summary that it has not matched as it was.
  An index is well named when every summary carries the hostname it is filed under.
  \<open>present\<close> are the hostnames of a list that the index has, \<open>firsts\<close> the elements of
  a list at their first occurrence, \<open>capped\<close> a list cut at the cap, if there is one,
  and \<open>sumCounts\<close> the sum of the values of a map of counts.
\<close>

definition eligible ::
  "('n HostFilter \<Rightarrow> 'n HostSummary \<Rightarrow> MatchResult \<times> 'n HostSummary) \<Rightarrow> 'n HostFilter \<Rightarrow>
   (string \<rightharpoonup> 'n HostSummary) \<Rightarrow> string \<Rightarrow> bool" where
  "eligible tm hostFilter idx name =
     (case idx name of None \<Rightarrow> False | Some hs \<Rightarrow> fst (tm hostFilter hs) = Matched)"

definition acquires ::
  "('n HostFilter \<Rightarrow> 'n HostSummary \<Rightarrow> MatchResult \<times> 'n HostSummary) \<Rightarrow> bool" where
  "acquires tm =
     (\<forall>hostFilter hs.
        GetHostname (snd (tm hostFilter hs)) = GetHostname hs
        \<and> (if fst (tm hostFilter hs) = Matched
           then fst (tm hostFilter (snd (tm hostFilter hs))) \<noteq> Matched
           else snd (tm hostFilter hs) = hs))"

definition wellNamed :: "(string \<rightharpoonup> 'n HostSummary) \<Rightarrow> bool" where
  "wellNamed idx = (\<forall>name hs. idx name = Some hs \<longrightarrow> GetHostname hs = name)"

definition present :: "(string \<rightharpoonup> 'n HostSummary) \<Rightarrow> string list \<Rightarrow> string list" where
  "present idx names = filter (\<lambda>name. idx name \<noteq> None) names"

fun firsts :: "'a list \<Rightarrow> 'a list" where
  "firsts [] = []"
| "firsts (x # xs) = x # filter (\<lambda>y. y \<noteq> x) (firsts xs)"

definition capped :: "nat option \<Rightarrow> 'a list \<Rightarrow> 'a list" where
  "capped cap xs = (case cap of None \<Rightarrow> xs | Some n \<Rightarrow> take n xs)"

definition sumCounts :: "(string \<rightharpoonup> nat) \<Rightarrow> nat" where
  "sumCounts counts = (\<Sum>reason \<in> dom counts. the (counts reason))"

text \<open>
  The room of a matcher is the number of hosts that it can still take under its cap, and
  a cap is reached by a number of hosts that is not below it.
\<close>

definition room :: "'n Matcher \<Rightarrow> nat option" where
  "room m = map_option (\<lambda>n. n - length (hostNames m)) (host_limit m)"

definition capReached :: "nat option \<Rightarrow> nat \<Rightarrow> bool" where
  "capReached cap k = (case cap of None \<Rightarrow> False | Some n \<Rightarrow> n \<le> k)"

text \<open>
  The hostnames that \<^verbatim>\<open>AcquireLeases\<close> matches, as the specification words them:
  the eligible hosts of the hint list in hint order, then the eligible hosts of the index
  that the hint list does not name, in the order of the visit, the whole cut at the cap.
\<close>

definition hintHosts ::
  "('n HostFilter \<Rightarrow> 'n HostSummary \<Rightarrow> MatchResult \<times> 'n HostSummary) \<Rightarrow> 'n HostFilter \<Rightarrow>
   (string \<rightharpoonup> 'n HostSummary) \<Rightarrow> string list" where
  "hintHosts tm hostFilter idx = filter (eligible tm hostFilter idx) (firsts (hint hostFilter))"

definition remainingHosts ::
  "('n HostFilter \<Rightarrow> 'n HostSummary \<Rightarrow> MatchResult \<times> 'n HostSummary) \<Rightarrow> 'n HostFilter \<Rightarrow>
   (string \<rightharpoonup> 'n HostSummary) \<Rightarrow> string list \<Rightarrow> string list" where
  "remainingHosts tm hostFilter idx order =
     filter (\<lambda>name. eligible tm hostFilter idx name \<and> name \<notin> set (hint hostFilter)) order"

definition matchedHosts ::
  "('n HostFilter \<Rightarrow> 'n HostSummary \<Rightarrow> MatchResult \<times> 'n HostSummary) \<Rightarrow> 'n HostFilter \<Rightarrow>
   (string \<rightharpoonup> 'n HostSummary) \<Rightarrow> string list \<Rightarrow> string list" where
  "matchedHosts tm hostFilter idx order =
     capped (max_hosts hostFilter)
       (hintHosts tm hostFilter idx @ remainingHosts tm hostFilter idx order)"

text \<open>
  The hosts that one loop of \<^verbatim>\<open>AcquireLeases\<close> tries, of the hosts \<open>ps\<close> that it
  meets: all of them when there is no cap; when there is room for more hosts, those up
  to the host whose match fills the room, after which the loop stops (\<open>el\<close> says which
  hosts match, and a host that has matched does not match again); when there is no room,
  the first host only, whose try is tallied \<^verbatim>\<open>MATCH_MAX_HOST_LIMIT\<close>.
  \<open>hintTries\<close> are the tries of the loop over the hints and \<open>rangeTries\<close> those of
  the loop over the index, which starts with the room that the matches of the hints
  leave.
\<close>

fun tried :: "nat option \<Rightarrow> (string \<Rightarrow> bool) \<Rightarrow> string list \<Rightarrow> string list" where
  "tried cap el [] = []"
| "tried None el (p # ps) = p # ps"
| "tried (Some 0) el (p # ps) = [p]"
| "tried (Some (Suc k)) el (p # ps) =
     (if el p then (if k = 0 then [p] else p # tried (Some k) (el(p := False)) ps)
      else p # tried (Some (Suc k)) el ps)"

definition hintTries ::
  "('n HostFilter \<Rightarrow> 'n HostSummary \<Rightarrow> MatchResult \<times> 'n HostSummary) \<Rightarrow> 'n HostFilter \<Rightarrow>
   (string \<rightharpoonup> 'n HostSummary) \<Rightarrow> string list" where
  "hintTries tm hostFilter idx =
     tried (max_hosts hostFilter) (eligible tm hostFilter idx) (present idx (hint hostFilter))"

definition rangeTries ::
  "('n HostFilter \<Rightarrow> 'n HostSummary \<Rightarrow> MatchResult \<times> 'n HostSummary) \<Rightarrow> 'n HostFilter \<Rightarrow>
   (string \<rightharpoonup> 'n HostSummary) \<Rightarrow> string list \<Rightarrow> string list" where
  "rangeTries tm hostFilter idx order =
     tried (map_option (\<lambda>n. n - length (hintHosts tm hostFilter idx)) (max_hosts hostFilter))
       (\<lambda>name. eligible tm hostFilter idx name \<and> name \<notin> set (hint hostFilter))
       (present idx order)"

text \<open>
  A try at time 0 with leases of 120 seconds. A filter that asks for nothing and takes
  one host; two filters that ask for nothing and hint at \<open>b\<close>, without a cap and with
  a cap of one host; a filter that asks for four cores, hints at \<open>h1\<close> and takes five
  hosts.
  A cache that two \<^verbatim>\<open>AddHost\<close> events fill with the hosts \<open>a\<close> and \<open>b\<close>, and a
  cache whose one host, \<open>h1\<close>, has two cores.
\<close>

definition tryAt0 :: "rat HostFilter \<Rightarrow> rat HostSummary \<Rightarrow> MatchResult \<times> rat HostSummary" where
  "tryAt0 = matchAndAcquire 0 120 (\<lambda>hs. ''lease-'' @ hs_hostname hs)"

definition anyOneHost :: "rat HostFilter" where
  "anyOneHost =
     \<lparr>resource_constraint = zeroResources, hint = [], max_hosts = Some 1\<rparr>"

definition hintB :: "rat HostFilter" where
  "hintB = \<lparr>resource_constraint = zeroResources, hint = [''b''], max_hosts = None\<rparr>"

definition hintBOneHost :: "rat HostFilter" where
  "hintBOneHost = \<lparr>resource_constraint = zeroResources, hint = [''b''], max_hosts = Some 1\<rparr>"

definition fourCores :: "rat HostFilter" where
  "fourCores =
     \<lparr>resource_constraint = \<lparr>CPU = 4, Mem = 4096, Disk = 0, GPU = 0\<rparr>,
      hint = [''h1''], max_hosts = Some 5\<rparr>"

definition hostsAB :: "rat hostCache" where
  "hostsAB =
     handleHostEvent (hostEvent AddHost ''b'' (Some cap2) ''1'')
       (handleHostEvent (hostEvent AddHost ''a'' (Some cap1) ''1'') New)"

definition smallHost :: "rat hostCache" where
  "smallHost = handleHostEvent (hostEvent AddHost ''h1'' (Some cap2) ''1'') New"

subsection \<open>Agreement of the held-pod index with the holds\<close>

text \<open>
  \<open>heldIndex\<close> reads \<^verbatim>\<open>podHeldIndex\<close> (a \<^verbatim>\<open>nil\<close> map reads as empty).
  \<open>holdsAgree\<close> is the invariant of the specification: every entry of the index names
  a host of the host index that holds the pod, and every hold of a host of the host
  index has its entry.
\<close>

definition heldIndex :: "'n hostCache \<Rightarrow> (string \<rightharpoonup> string)" where
  "heldIndex c = (case podHeldIndex c of None \<Rightarrow> Map.empty | Some idx \<Rightarrow> idx)"

definition holdsAgree :: "'n hostCache \<Rightarrow> bool" where
  "holdsAgree c =
     ((\<forall>p h. heldIndex c p = Some h \<longrightarrow>
          (\<exists>hs. hostIndex c h = Some hs \<and> p \<in> dom (hs_holds hs)))
      \<and> (\<forall>h hs p. hostIndex c h = Some hs \<longrightarrow> p \<in> dom (hs_holds hs) \<longrightarrow>
            heldIndex c p = Some h))"

subsection \<open>The states of a cache\<close>

text \<open>
  The states that a cache made by \<^verbatim>\<open>New\<close> gets into: the state \<^verbatim>\<open>New\<close>
  returns, and the state in which an event or a call of an operation leaves a state of
  the cache, whatever the methods of the summaries do and in whatever order a map is
  visited. A call that panics leaves a state as well: the lock is released on the way
  out and the cache goes on when its caller recovers the panic.
\<close>

inductive reachable :: "'n::zero hostCache \<Rightarrow> bool" where
  reach_New: "reachable New"
| reach_handleHostEvent: "reachable c \<Longrightarrow> reachable (handleHostEvent event c)"
| reach_handlePodEvent: "reachable c \<Longrightarrow> reachable (handlePodEvent handle podEvent c)"
| reach_AcquireLeases:
    "reachable c \<Longrightarrow> AcquireLeases tm order hostFilter c = Returned (leases, counts, c') \<Longrightarrow>
     reachable c'"
| reach_AcquireLeases_panic:
    "reachable c \<Longrightarrow> AcquireLeases tm order hostFilter c = Panic c' \<Longrightarrow> reachable c'"
| reach_TerminateLease:
    "reachable c \<Longrightarrow> reachable (snd (TerminateLease terminate name leaseID c))"
| reach_CompleteLease:
    "reachable c \<Longrightarrow> reachable (snd (CompleteLease completeFn name leaseID podToResMap c))"
| reach_HoldForPods:
    "reachable c \<Longrightarrow> HoldForPods hold name podIDs c = Returned (err, c') \<Longrightarrow> reachable c'"
| reach_HoldForPods_panic:
    "reachable c \<Longrightarrow> HoldForPods hold name podIDs c = Panic c' \<Longrightarrow> reachable c'"
| reach_ReleaseHoldForPods:
    "reachable c \<Longrightarrow> reachable (snd (ReleaseHoldForPods release name podIDs c))"
| reach_ResetExpiredHeldHostSummaries:
    "reachable c \<Longrightarrow>
     reachable (snd (ResetExpiredHeldHostSummaries delExpired order deadline c))"

text \<open>
  A new cache to which an \<^verbatim>\<open>AddHost\<close> event has brought the host \<open>h1\<close>, and that
  cache as a panic of \<^verbatim>\<open>HoldForPods(h1, [p1])\<close> at time 0, with holds of 300
  seconds, leaves it: the summary holds \<open>p1\<close>.
\<close>

definition oneHost :: "rat hostCache" where
  "oneHost = handleHostEvent (hostEvent AddHost ''h1'' (Some cap1) ''1'') New"

definition heldHost :: "rat HostSummary" where
  "heldHost =
     (newKubeletHostSummary ''h1'' (Some cap1) ''1'')
       \<lparr>hs_status := Held, hs_holds := [''p1'' \<mapsto> 300]\<rparr>"

definition oneHostHeld :: "rat hostCache" where
  "oneHostHeld = \<lparr>hostIndex = [''h1'' \<mapsto> heldHost], podHeldIndex = None\<rparr>"

section \<open>Properties of the version comparison\<close>

lemma digitVal_le: "isDigit c \<Longrightarrow> digitVal c \<le> 9"
  by (auto simp add: isDigit_def digitVal_def less_eq_char_def)

lemma decimalFrom_mono: "n \<le> decimalFrom n s"
  unfolding decimalFrom_def
proof (induction s arbitrary: n)
  case Nil
  show ?case by simp
next
  case (Cons c cs)
  have "n \<le> 10 * n + digitVal c" by simp
  also have "\<dots> \<le> foldl (\<lambda>a c. 10 * a + digitVal c) (10 * n + digitVal c) cs"
    by (rule Cons.IH)
  finally show ?case by simp
qed

lemma decimalFrom_Cons: "decimalFrom n (c # cs) = decimalFrom (10 * n + digitVal c) cs"
  by (simp add: decimalFrom_def)

text \<open>One step of the loop when the new value fits: nothing wraps.\<close>

lemma step_no_wrap:
  assumes "n < cutoff" "d \<le> 9" "10 * n + d \<le> maxUint64"
  shows "((n * 10) mod 2 ^ 64 + d) mod 2 ^ 64 = 10 * n + d"
    and "(n * 10) mod 2 ^ 64 = 10 * n"
  using assms by (simp_all add: cutoff_def maxUint64_def)

text \<open>One step when the sum passes \<open>2^64 - 1\<close>: the 64-bit sum wraps below \<open>n * 10\<close>.\<close>

lemma step_wrap:
  assumes "n < cutoff" "d \<le> 9" "maxUint64 < 10 * n + d"
  shows "((n * 10) mod 2 ^ 64 + d) mod 2 ^ 64 < (n * 10) mod 2 ^ 64"
proof -
  let ?M = "18446744073709551616::nat"
  have a: "(n * 10) mod ?M = 10 * n"
    using assms(1) by (simp add: cutoff_def maxUint64_def)
  have "?M \<le> 10 * n + d" "10 * n + d - ?M < ?M"
    using assms by (simp_all add: cutoff_def maxUint64_def)
  then have b: "(10 * n + d) mod ?M = 10 * n + d - ?M"
    by (simp add: le_mod_geq)
  have "10 * n + d - ?M < 10 * n"
    using assms by (simp add: cutoff_def maxUint64_def)
  with a b show ?thesis by (simp add: mult.commute)
qed

lemma parseUintLoop_eq:
  "n \<le> maxUint64 \<Longrightarrow>
   parseUintLoop cs n =
     (let p = takeWhile isDigit cs; v = decimalFrom n p
      in if maxUint64 < v then (maxUint64, Some ErrRange)
         else if p = cs then (v, None) else (0, Some ErrSyntax))"
proof (induction cs arbitrary: n)
  case Nil
  then show ?case by (simp add: decimalFrom_def)
next
  case (Cons c cs)
  show ?case
  proof (cases "isDigit c")
    case False
    then show ?thesis using Cons.prems by (simp add: decimalFrom_def)
  next
    case True
    note dig = digitVal_le [OF True]
    let ?m = "10 * n + digitVal c"
    have mono: "?m \<le> decimalFrom ?m (takeWhile isDigit cs)" by (rule decimalFrom_mono)
    show ?thesis
    proof (cases "maxUint64 < ?m")
      case over: True
      have "parseUintLoop (c # cs) n = (maxUint64, Some ErrRange)"
      proof (cases "cutoff \<le> n")
        case True
        then show ?thesis using \<open>isDigit c\<close> by simp
      next
        case False
        then have "n < cutoff" by simp
        from step_wrap [OF this dig over] show ?thesis
          using \<open>isDigit c\<close> False by (simp add: Let_def)
      qed
      moreover have "maxUint64 < decimalFrom ?m (takeWhile isDigit cs)"
        using over mono by linarith
      ultimately show ?thesis using \<open>isDigit c\<close> by (simp add: decimalFrom_Cons)
    next
      case False
      then have le: "?m \<le> maxUint64" by simp
      then have lt: "n < cutoff" by (simp add: cutoff_def maxUint64_def)
      have "parseUintLoop (c # cs) n = parseUintLoop cs ?m"
        using \<open>isDigit c\<close> lt le step_no_wrap [OF lt dig le]
        by (simp add: Let_def mult.commute)
      then show ?thesis
        using Cons.IH [OF le] \<open>isDigit c\<close> by (simp add: decimalFrom_Cons Let_def)
    qed
  qed
qed

lemma ParseUint_eq:
  "ParseUint s =
     (if s = [] then (0, Some ErrSyntax)
      else if maxUint64 < decimal (takeWhile isDigit s) then (maxUint64, Some ErrRange)
      else if takeWhile isDigit s = s then (decimal s, None)
      else (0, Some ErrSyntax))"
proof (cases "s = []")
  case True
  then show ?thesis by (simp add: ParseUint_def)
next
  case False
  have "(0::nat) \<le> maxUint64" by simp
  from parseUintLoop_eq [OF this, of s] False show ?thesis
    by (cases "takeWhile isDigit s = s")
      (simp_all add: ParseUint_def decimal_def Let_def del: takeWhile_eq_all_conv)
qed

lemma ParseUint_value: "fst (ParseUint s) = uintValue s"
  by (cases "takeWhile isDigit s = s")
    (simp_all add: ParseUint_eq uintValue_def decimal_def decimalFrom_def Let_def
      del: takeWhile_eq_all_conv)

lemma takeWhile_digits: "list_all isDigit s \<Longrightarrow> takeWhile isDigit s = s"
  by (simp add: list_all_iff)

lemma ParseUint_ok_iff: "snd (ParseUint s) = None \<longleftrightarrow> isUintString s"
proof (cases "takeWhile isDigit s = s")
  case True
  then have "list_all isDigit s" by (simp add: list_all_iff)
  with True show ?thesis
    by (simp add: ParseUint_eq isUintString_def del: takeWhile_eq_all_conv)
next
  case False
  then have "\<not> list_all isDigit s" using takeWhile_digits by blast
  with False show ?thesis
    by (simp add: ParseUint_eq isUintString_def del: takeWhile_eq_all_conv)
qed

lemma ParseUint_isUintString: "isUintString s \<Longrightarrow> ParseUint s = (decimal s, None)"
  by (simp add: ParseUint_eq isUintString_def takeWhile_digits del: takeWhile_eq_all_conv)

text \<open>
  C3 (amended). \<^verbatim>\<open>IsOldVersion(old, new)\<close> compares the two values that
  \<^verbatim>\<open>ParseUint\<close> returns with its error dropped: the decimal number for a string of
  digits up to \<open>2^64 - 1\<close>, \<open>0\<close> for a string that is empty or has another byte, and
  \<open>2^64 - 1\<close> when the digits overflow. So it is \<open>parse_uint(new) < parse_uint(old)\<close>
  when both strings parse, it agrees with the specification's wording there, it is
  false whenever the old version counts as \<open>0\<close>, and it is false for equal versions.
  No strings are compared.
\<close>

theorem IsOldVersion_compares_parsed_values:
  "(IsOldVersion old new \<longleftrightarrow> uintValue new < uintValue old)
   \<and> (isUintString old \<and> isUintString new \<longrightarrow>
        (IsOldVersion old new \<longleftrightarrow> decimal new < decimal old)
        \<and> IsOldVersion old new = IsOldVersion_spec old new)
   \<and> (uintValue old = 0 \<longrightarrow> \<not> IsOldVersion old new)
   \<and> \<not> IsOldVersion v v"
proof -
  have a: "IsOldVersion old new \<longleftrightarrow> uintValue new < uintValue old" for old new
    by (simp add: IsOldVersion_def ParseUint_value)
  have b: "IsOldVersion old new \<longleftrightarrow> decimal new < decimal old"
    if "isUintString old" "isUintString new"
    using that by (simp add: IsOldVersion_def ParseUint_isUintString)
  have c: "IsOldVersion old new = IsOldVersion_spec old new"
    if "isUintString old" "isUintString new"
    using that by (simp add: IsOldVersion_def IsOldVersion_spec_def ParseUint_isUintString)
  show ?thesis using a b c by simp
qed

theorem IsOldVersion_compares_parsed_values_witness:
  "isUintString ''5'' \<and> isUintString ''3'' \<and> IsOldVersion ''5'' ''3''
   \<and> decimal ''3'' < decimal ''5'' \<and> IsOldVersion_spec ''5'' ''3''
   \<and> uintValue ''v1'' = 0 \<and> \<not> IsOldVersion ''v1'' ''3''
   \<and> \<not> IsOldVersion ''7'' ''7''"
proof -
  have h: "isUintString ''5''" "isUintString ''3''" "decimal ''3'' < decimal ''5''"
    by (simp_all add: isUintString_def decimal_def decimalFrom_def isDigit_def
        digitVal_def maxUint64_def)
  have u: "uintValue ''v1'' = 0"
    by (simp add: uintValue_def decimal_def decimalFrom_def isDigit_def maxUint64_def)
  from IsOldVersion_compares_parsed_values [of "''5''" "''3''" "''7''"] h
  have a: "IsOldVersion ''5'' ''3''" "IsOldVersion_spec ''5'' ''3''"
    "\<not> IsOldVersion ''7'' ''7''"
    by blast+
  from IsOldVersion_compares_parsed_values [of "''v1''" "''3''" "''7''"] u
  have b: "\<not> IsOldVersion ''v1'' ''3''"
    by blast
  from h u a b show ?thesis by blast
qed

text \<open>
  The claim as worded fails where a string does not parse: neither \<open>''b''\<close> nor
  \<open>''a''\<close> is a number, \<open>''a'' < ''b''\<close> as strings, so the specification calls
  \<open>''a''\<close> old, while the code compares \<open>0 < 0\<close>.
\<close>

theorem IsOldVersion_string_compare_counterexample:
  "snd (ParseUint ''b'') \<noteq> None \<and> snd (ParseUint ''a'') \<noteq> None \<and> ''a'' < ''b''
   \<and> IsOldVersion_spec ''b'' ''a'' \<and> \<not> IsOldVersion ''b'' ''a''"
  by (simp add: IsOldVersion_spec_def IsOldVersion_def ParseUint_def isDigit_def)

section \<open>Host events and versions\<close>

lemmas version_eval =
  IsOldVersion_def ParseUint_def isDigit_def digitVal_def cutoff_def maxUint64_def

lemma old_version_rejected:
  assumes "hostIndex c (hostname (hostInfo event)) = Some hs"
    and "IsOldVersion (GetVersion hs) (resourceVersion (hostInfo event))"
  shows "addHost event c = c" "updateHostSpec event c = c" "deleteHost event c = c"
  using assms by (simp_all add: addHost_def updateHostSpec_def deleteHost_def Let_def)

text \<open>
  C2 (amended). An \<open>AddHost\<close>, \<open>UpdateHostSpec\<close> or \<open>DeleteHost\<close> event for a host
  that has a summary, with a version that \<^verbatim>\<open>IsOldVersion\<close> calls old, leaves the
  whole cache as it was. An \<open>UpdateHostAvailableRes\<close> event is applied without a
  version test: the summary gets the event's available resources and its version.
\<close>

theorem stale_host_event_rejected:
  "hostIndex c (hostname (hostInfo event)) = Some hs \<Longrightarrow>
   IsOldVersion (GetVersion hs) (resourceVersion (hostInfo event)) \<Longrightarrow>
     (eventType event \<noteq> UpdateHostAvailableRes \<longrightarrow> handleHostEvent event c = c)
   \<and> (eventType event = UpdateHostAvailableRes \<longrightarrow>
        hostIndex (handleHostEvent event c) (hostname (hostInfo event)) =
          Some (hs\<lparr>hs_available := FromPelotonResources (available (hostInfo event)),
                   hs_version := resourceVersion (hostInfo event)\<rparr>))"
  by (cases "eventType event")
    (simp_all add: handleHostEvent_def old_version_rejected updateHostAvailable_def Let_def
      SetVersion_def SetAvailable_def)

theorem stale_host_event_rejected_witness:
  "hostIndex busyCache (hostname (hostInfo (hostEvent AddHost ''h1'' (Some cap1) ''3'')))
     = Some busyHost
   \<and> IsOldVersion (GetVersion busyHost)
        (resourceVersion (hostInfo (hostEvent AddHost ''h1'' (Some cap1) ''3'')))
   \<and> handleHostEvent (hostEvent AddHost ''h1'' (Some cap1) ''3'') busyCache = busyCache
   \<and> handleHostEvent (hostEvent UpdateHostSpec ''h1'' (Some cap1) ''3'') busyCache = busyCache
   \<and> handleHostEvent (hostEvent DeleteHost ''h1'' (Some cap1) ''3'') busyCache = busyCache"
proof -
  have h: "hostIndex busyCache (hostname (hostInfo (hostEvent e ''h1'' (Some cap1) ''3'')))
      = Some busyHost" for e
    by (simp add: busyCache_def hostEvent_def)
  have v: "IsOldVersion (GetVersion busyHost)
      (resourceVersion (hostInfo (hostEvent e ''h1'' (Some cap1) ''3'')))" for e
    by (simp add: busyHost_def hostEvent_def GetVersion_def version_eval)
  have t: "eventType (hostEvent e ''h1'' (Some cap1) ''3'') = e" for e
    by (simp add: hostEvent_def)
  from stale_host_event_rejected [OF h v, of AddHost]
    stale_host_event_rejected [OF h v, of UpdateHostSpec]
    stale_host_event_rejected [OF h v, of DeleteHost] h v
  show ?thesis by (simp add: t)
qed

text \<open>
  The claim fails for \<open>UpdateHostAvailableRes\<close>: host \<open>h1\<close> has version \<open>5\<close>, the
  event that \<^verbatim>\<open>BuildHostEventFromResource\<close> builds has the empty version, which
  \<^verbatim>\<open>IsOldVersion\<close> calls old, and the summary is changed all the same.
\<close>

theorem updateHostAvailable_unchecked_counterexample:
  "hostIndex busyCache ''h1'' = Some busyHost
   \<and> hostname (hostInfo (BuildHostEventFromResource ''h1'' (Some cap1) UpdateHostAvailableRes))
       = ''h1''
   \<and> IsOldVersion (GetVersion busyHost)
        (resourceVersion
          (hostInfo (BuildHostEventFromResource ''h1'' (Some cap1) UpdateHostAvailableRes)))
   \<and> handleHostEvent (BuildHostEventFromResource ''h1'' (Some cap1) UpdateHostAvailableRes)
        busyCache \<noteq> busyCache
   \<and> hostIndex
        (handleHostEvent (BuildHostEventFromResource ''h1'' (Some cap1) UpdateHostAvailableRes)
          busyCache) ''h1''
       = Some (busyHost\<lparr>hs_available := FromPelotonResources (Some cap1), hs_version := []\<rparr>)"
proof -
  let ?e = "BuildHostEventFromResource ''h1'' (Some cap1) UpdateHostAvailableRes :: rat HostEvent"
  let ?hs = "busyHost\<lparr>hs_available := FromPelotonResources (Some cap1), hs_version := []\<rparr>"
  have a: "hostIndex (handleHostEvent ?e busyCache) ''h1'' = Some ?hs"
    by (simp add: handleHostEvent_def updateHostAvailable_def BuildHostEventFromResource_def
        busyCache_def SetVersion_def SetAvailable_def Let_def)
  have b: "hostIndex busyCache ''h1'' = Some busyHost"
    by (simp add: busyCache_def)
  have "?hs \<noteq> busyHost"
  proof
    assume "?hs = busyHost"
    then have "hs_version ?hs = hs_version busyHost" by (rule arg_cong)
    then show False by (simp add: busyHost_def)
  qed
  with a b have c: "handleHostEvent ?e busyCache \<noteq> busyCache" by auto
  have d: "IsOldVersion (GetVersion busyHost) (resourceVersion (hostInfo ?e))"
    by (simp add: busyHost_def BuildHostEventFromResource_def GetVersion_def version_eval)
  have e: "hostname (hostInfo ?e) = ''h1''"
    by (simp add: BuildHostEventFromResource_def)
  from a b c d e show ?thesis by blast
qed

text \<open>
  C6. \<open>AddHost(h1, C1, "5")\<close> followed by \<open>UpdateHostSpec(h1, C2, "3")\<close>, on a cache
  that takes the first event (\<open>h1\<close> is new to it, or its version is not newer than
  \<open>5\<close>): \<open>h1\<close> is in the index with the summary that \<open>AddHost\<close> made, of capacity
  \<open>C1\<close>.
\<close>

theorem stale_update_keeps_capacity:
  assumes "eventType e1 = AddHost" "hostname (hostInfo e1) = h1"
    and "capacity (hostInfo e1) = C1" "resourceVersion (hostInfo e1) = ''5''"
    and "eventType e2 = UpdateHostSpec" "hostname (hostInfo e2) = h1"
    and "capacity (hostInfo e2) = C2" "resourceVersion (hostInfo e2) = ''3''"
    and "case hostIndex c h1 of None \<Rightarrow> True | Some hs \<Rightarrow> \<not> IsOldVersion (GetVersion hs) ''5''"
  shows "hostIndex (handleHostEvent e2 (handleHostEvent e1 c)) h1
           = Some (newKubeletHostSummary h1 C1 ''5'')
         \<and> GetCapacity (newKubeletHostSummary h1 C1 ''5'') = FromPelotonResources C1"
proof -
  let ?c1 = "c\<lparr>hostIndex := (hostIndex c)(h1 \<mapsto> newKubeletHostSummary h1 C1 ''5'')\<rparr>"
  have add: "handleHostEvent e1 c = ?c1"
    using assms(1-4,9) by (simp add: handleHostEvent_def addHost_def Let_def split: option.splits)
  have old: "IsOldVersion ''5'' ''3''"
    by (simp add: version_eval)
  have "handleHostEvent e2 ?c1 = ?c1"
    using assms(5,6,8) old
    by (simp add: handleHostEvent_def updateHostSpec_def Let_def GetVersion_def
        newKubeletHostSummary_def)
  then show ?thesis
    by (simp add: add GetCapacity_def newKubeletHostSummary_def)
qed

theorem stale_update_keeps_capacity_witness:
  "hostIndex (handleHostEvent (hostEvent UpdateHostSpec ''h1'' (Some cap2) ''3'')
      (handleHostEvent (hostEvent AddHost ''h1'' (Some cap1) ''5'') New)) ''h1''
     = Some (newKubeletHostSummary ''h1'' (Some cap1) ''5'')
   \<and> GetCapacity (newKubeletHostSummary ''h1'' (Some cap1) ''5'')
       = FromPelotonResources (Some cap1)"
  by (rule stale_update_keeps_capacity [where ?C2.0 = "Some cap2"])
    (simp_all add: hostEvent_def New_def)

text \<open>
  C9. An \<open>AddHost\<close> event for a host that has a summary, with a version that is not
  older than the summary's (an equal version is not older): the summary is replaced
  by a new Kubelet summary made of the event's hostname, capacity and version, with no
  pods, nothing allocated, no holds and no lease, whatever the old summary had. The rest
  of the cache, \<^verbatim>\<open>podHeldIndex\<close> included, stays.
\<close>

theorem addHost_replaces_summary:
  assumes "hostIndex c (hostname (hostInfo event)) = Some existing"
    and "\<not> IsOldVersion (GetVersion existing) (resourceVersion (hostInfo event))"
  shows "\<exists>fresh.
           addHost event c = c\<lparr>hostIndex := (hostIndex c)(hostname (hostInfo event) \<mapsto> fresh)\<rparr>
         \<and> fresh = newKubeletHostSummary (hostname (hostInfo event)) (capacity (hostInfo event))
                    (resourceVersion (hostInfo event))
         \<and> hs_kind fresh = Kubelet
         \<and> hs_hostname fresh = hostname (hostInfo event)
         \<and> hs_capacity fresh = FromPelotonResources (capacity (hostInfo event))
         \<and> hs_version fresh = resourceVersion (hostInfo event)
         \<and> hs_pods fresh = Map.empty
         \<and> hs_allocated fresh = zeroResources
         \<and> hs_holds fresh = Map.empty
         \<and> hs_lease_id fresh = None
         \<and> hs_status fresh = Ready"
  using assms by (simp add: addHost_def Let_def newKubeletHostSummary_def)

theorem addHost_replaces_summary_witness:
  "hostIndex busyCache ''h1'' = Some busyHost
   \<and> GetVersion busyHost = ''5''
   \<and> \<not> IsOldVersion (GetVersion busyHost) ''5''
   \<and> hs_pods busyHost \<noteq> Map.empty \<and> hs_holds busyHost \<noteq> Map.empty
   \<and> hs_lease_id busyHost \<noteq> None
   \<and> addHost (hostEvent AddHost ''h1'' (Some cap2) ''5'') busyCache
       = busyCache\<lparr>hostIndex := [''h1'' \<mapsto> newKubeletHostSummary ''h1'' (Some cap2) ''5'']\<rparr>"
proof -
  let ?e = "hostEvent AddHost ''h1'' (Some cap2) ''5'' :: rat HostEvent"
  have h: "hostIndex busyCache (hostname (hostInfo ?e)) = Some busyHost"
    by (simp add: busyCache_def hostEvent_def)
  have v: "\<not> IsOldVersion (GetVersion busyHost) (resourceVersion (hostInfo ?e))"
    by (simp add: busyHost_def hostEvent_def GetVersion_def version_eval)
  have b: "hs_pods busyHost \<noteq> Map.empty" "hs_holds busyHost \<noteq> Map.empty"
    "hs_lease_id busyHost \<noteq> None" "GetVersion busyHost = ''5''"
    by (simp_all add: busyHost_def GetVersion_def)
  from addHost_replaces_summary [OF h v] h v b show ?thesis
    by (simp add: hostEvent_def busyCache_def)
qed

section \<open>Operations on a host that the index lacks\<close>

text \<open>
  C7. For a hostname that is absent from the host index, \<^verbatim>\<open>TerminateLease\<close>,
  \<^verbatim>\<open>CompleteLease\<close>, \<^verbatim>\<open>HoldForPods\<close> and \<^verbatim>\<open>ReleaseHoldForPods\<close> each return the
  \<open>NotFound\<close> error of \<^verbatim>\<open>getSummary\<close> and the cache as it was, whatever the
  implementation of the summaries.
\<close>

theorem absent_host_is_NotFound:
  "hostIndex c name = None \<Longrightarrow>
     TerminateLease terminate name leaseID c = (Some (NotFound name), c)
   \<and> CompleteLease completeFn name leaseID podToResMap c = (Some (NotFound name), c)
   \<and> HoldForPods hold name podIDs c = Returned (Some (NotFound name), c)
   \<and> ReleaseHoldForPods release name podIDs c = (Some (NotFound name), c)"
  by (simp add: TerminateLease_def CompleteLease_def HoldForPods_def ReleaseHoldForPods_def
      getSummary_def)

theorem absent_host_is_NotFound_witness:
  "hostIndex twoHosts ''h1'' = None
   \<and> TerminateLease hsTerminateLease ''h1'' ''lease-1'' twoHosts
       = (Some (NotFound ''h1''), twoHosts)
   \<and> CompleteLease (\<lambda>l m hs. (None, hs)) ''h1'' ''lease-1'' Map.empty twoHosts
       = (Some (NotFound ''h1''), twoHosts)
   \<and> HoldForPods (HoldForPod 0 300) ''h1'' [''p1''] twoHosts
       = Returned (Some (NotFound ''h1''), twoHosts)
   \<and> ReleaseHoldForPods ReleaseHoldForPod ''h1'' [''p1''] twoHosts
       = (Some (NotFound ''h1''), twoHosts)"
proof -
  have h: "hostIndex twoHosts ''h1'' = None"
    by (simp add: twoHosts_def)
  from absent_host_is_NotFound [OF h] h show ?thesis by blast
qed

section \<open>Cluster capacity\<close>













lemma float64_large_sums:
  "f1 + f1 = f2"
  "f1e16 + f1 = f1e16"
  "f2 + f1e16 = f1e16plus2"
  "(f1e16 + f1) + f1 \<noteq> f1e16 + (f1 + f1)"
  by (simp_all add: f1_def f2_def f1e16_def f1e16plus2_def
      plus_float64_def round64_def overflow_def bitLength.simps Let_def)

lemma float64_not_associative:
  "(f0_1 + f0_2) + f0_3 \<noteq> f0_1 + (f0_2 + f0_3)"
  by (simp add: f0_1_def f0_2_def f0_3_def
      plus_float64_def round64_def overflow_def bitLength.simps Let_def)

lemma float64_add_commute: "(a::float64) + b = b + a"
  by (cases a; cases b) (simp_all add: plus_float64_def min.commute add.commute)





section \<open>Holding a host for several pods\<close>

text \<open>
  The loop of \<^verbatim>\<open>HoldForPods\<close>, for any implementation of \<^verbatim>\<open>HoldForPod\<close>: it
  returns when \<^verbatim>\<open>podHeldIndex\<close> is allocated or no hold succeeds, and it panics at
  the first hold that succeeds when the map is \<^verbatim>\<open>nil\<close>.
\<close>

lemma holdLoop_returns:
  assumes "pidx \<noteq> None \<or> holdSucceeded hold ps hs = []"
  shows "holdLoop hold name ps (hs, pidx, errs) =
           Returned (holdFinal hold ps hs,
                     map_option (recordHolds name (holdSucceeded hold ps hs)) pidx,
                     errs @ holdErrors hold ps hs)"
  using assms
proof (induction ps arbitrary: hs pidx errs)
  case Nil
  show ?case
    by (cases pidx)
      (simp_all add: holdSucceeded_def holdFinal_def holdErrors_def recordHolds_def)
next
  case (Cons p ps)
  obtain e hs' where h: "hold p hs = (e, hs')" by (cases "hold p hs")
  show ?case
  proof (cases e)
    case (Some err)
    with h Cons.prems have "pidx \<noteq> None \<or> holdSucceeded hold ps hs' = []"
      by (simp add: holdSucceeded_def)
    from Cons.IH [OF this, of "errs @ [err]"] h Some show ?thesis
      by (simp add: holdSucceeded_def holdFinal_def holdErrors_def)
  next
    case None
    with h Cons.prems obtain idx where i: "pidx = Some idx"
      by (auto simp add: holdSucceeded_def)
    have "Some (idx(p \<mapsto> name)) \<noteq> None \<or> holdSucceeded hold ps hs' = []" by simp
    from Cons.IH [OF this, of errs] h None i show ?thesis
      by (simp add: addPodHold_def holdSucceeded_def holdFinal_def holdErrors_def
          recordHolds_def)
  qed
qed

lemma holdLoop_panics:
  assumes "holdSucceeded hold ps hs \<noteq> []"
  shows "\<exists>errs'. holdLoop hold name ps (hs, None, errs) = Panic (heldAtFirst hold ps hs, None, errs')"
  using assms
proof (induction ps arbitrary: hs errs)
  case Nil
  then show ?case by (simp add: holdSucceeded_def)
next
  case (Cons p ps)
  obtain e hs' where h: "hold p hs = (e, hs')" by (cases "hold p hs")
  show ?case
  proof (cases e)
    case (Some err)
    with h Cons.prems have "holdSucceeded hold ps hs' \<noteq> []"
      by (simp add: holdSucceeded_def)
    from Cons.IH [OF this, of "errs @ [err]"] h Some show ?thesis by simp
  next
    case None
    with h show ?thesis by (simp add: addPodHold_def)
  qed
qed

lemma HoldForPods_returns:
  assumes "hostIndex c name = Some hs"
    and "podHeldIndex c \<noteq> None \<or> holdSucceeded hold podIDs hs = []"
  shows "HoldForPods hold name podIDs c =
           Returned
             (if holdErrors hold podIDs hs \<noteq> [] then Some (Internal (holdErrors hold podIDs hs))
              else None,
              c\<lparr>hostIndex := (hostIndex c)(name \<mapsto> holdFinal hold podIDs hs),
                podHeldIndex :=
                  map_option (recordHolds name (holdSucceeded hold podIDs hs)) (podHeldIndex c)\<rparr>)"
  using assms(1) by (simp add: HoldForPods_def getSummary_def holdLoop_returns [OF assms(2)])

text \<open>
  On the \<^verbatim>\<open>nil\<close> map that \<^verbatim>\<open>New\<close> leaves in \<^verbatim>\<open>podHeldIndex\<close>, the first hold that
  succeeds panics in \<^verbatim>\<open>addPodHold\<close>: the call returns no error, the summary keeps
  what \<^verbatim>\<open>HoldForPod\<close> did to it and the map stays \<^verbatim>\<open>nil\<close>.
\<close>

lemma HoldForPods_nil_index_panics:
  assumes "hostIndex c name = Some hs" and "podHeldIndex c = None"
    and "holdSucceeded hold podIDs hs \<noteq> []"
  shows "HoldForPods hold name podIDs c =
           Panic (c\<lparr>hostIndex := (hostIndex c)(name \<mapsto> heldAtFirst hold podIDs hs)\<rparr>)"
proof -
  obtain errs' where
    "holdLoop hold name podIDs (hs, None, []) = Panic (heldAtFirst hold podIDs hs, None, errs')"
    using holdLoop_panics [OF assms(3)] by blast
  then show ?thesis
    using assms(1,2) by (simp add: HoldForPods_def getSummary_def)
qed

lemma recordHolds_lookup:
  "recordHolds name ps idx p = (if p \<in> set ps then Some name else idx p)"
  unfolding recordHolds_def by (induction ps arbitrary: idx) auto

lemma holdFinal_keeps:
  assumes "keepsHolds hold"
  shows "dom (hs_holds hs) \<subseteq> dom (hs_holds (holdFinal hold ps hs))"
  unfolding holdFinal_def
proof (induction ps arbitrary: hs)
  case Nil
  show ?case by simp
next
  case (Cons p ps)
  have "dom (hs_holds hs) \<subseteq> dom (hs_holds (snd (hold p hs)))"
    using assms by (simp add: keepsHolds_def)
  also have "\<dots> \<subseteq> dom (hs_holds (foldl (\<lambda>s p. snd (hold p s)) (snd (hold p hs)) ps))"
    by (rule Cons.IH)
  finally show ?case by simp
qed

lemma holdSucceeded_held:
  assumes "keepsHolds hold"
  shows "set (holdSucceeded hold ps hs) \<subseteq> dom (hs_holds (holdFinal hold ps hs))"
proof (induction ps arbitrary: hs)
  case Nil
  show ?case by (simp add: holdSucceeded_def)
next
  case (Cons p ps)
  let ?s = "snd (hold p hs)"
  have step: "holdFinal hold (p # ps) hs = holdFinal hold ps ?s"
    by (simp add: holdFinal_def)
  have rest: "set (holdSucceeded hold ps ?s) \<subseteq> dom (hs_holds (holdFinal hold ps ?s))"
    by (rule Cons.IH)
  have first: "p \<in> dom (hs_holds (holdFinal hold ps ?s))" if "fst (hold p hs) = None"
  proof -
    from assms that have "p \<in> dom (hs_holds ?s)" by (simp add: keepsHolds_def)
    with holdFinal_keeps [OF assms, of ?s ps] show ?thesis by blast
  qed
  show ?case
    using rest first by (auto simp add: step holdSucceeded_def)
qed

text \<open>
  When the hold that a summary takes puts the pod into its holds, the summary holds a
  pod of the call at the first hold that succeeds.
\<close>

lemma heldAtFirst_holds:
  assumes "keepsHolds hold" and "holdSucceeded hold ps hs \<noteq> []"
  shows "\<exists>p \<in> set ps. p \<in> dom (hs_holds (heldAtFirst hold ps hs))"
  using assms(2)
proof (induction ps arbitrary: hs)
  case Nil
  then show ?case by (simp add: holdSucceeded_def)
next
  case (Cons p ps)
  show ?case
  proof (cases "fst (hold p hs) = None")
    case True
    with assms(1) have "p \<in> dom (hs_holds (snd (hold p hs)))" by (simp add: keepsHolds_def)
    with True show ?thesis by simp
  next
    case False
    with Cons.prems have "holdSucceeded hold ps (snd (hold p hs)) \<noteq> []"
      by (simp add: holdSucceeded_def)
    from Cons.IH [OF this] False show ?thesis by auto
  qed
qed

section \<open>The states of a cache made by New\<close>

text \<open>
  No event and no operation allocates \<^verbatim>\<open>podHeldIndex\<close>: it is \<^verbatim>\<open>nil\<close> in
  every state of a cache made by \<^verbatim>\<open>New\<close>.
\<close>

lemma handleHostEvent_podHeldIndex: "podHeldIndex (handleHostEvent event c) = podHeldIndex c"
  by (cases "eventType event")
    (auto simp add: handleHostEvent_def addHost_def updateHostSpec_def deleteHost_def
      updateHostAvailable_def Let_def split: option.splits)

lemma handlePodEvent_podHeldIndex: "podHeldIndex (handlePodEvent handle event c) = podHeldIndex c"
  by (simp add: handlePodEvent_def split: option.splits)

lemma AcquireLeases_podHeldIndex:
  "AcquireLeases tm order hostFilter c = Returned (leases, counts, c') \<Longrightarrow>
   podHeldIndex c' = podHeldIndex c"
  "AcquireLeases tm order hostFilter c = Panic c' \<Longrightarrow> podHeldIndex c' = podHeldIndex c"
  by (auto simp add: AcquireLeases_def split: prod.splits outcome.splits)

lemma TerminateLease_podHeldIndex:
  "podHeldIndex (snd (TerminateLease terminate name leaseID c)) = podHeldIndex c"
  by (simp add: TerminateLease_def getSummary_def split: option.splits prod.splits)

lemma CompleteLease_podHeldIndex:
  "podHeldIndex (snd (CompleteLease completeFn name leaseID podToResMap c)) = podHeldIndex c"
  by (simp add: CompleteLease_def getSummary_def split: option.splits prod.splits)

lemma HoldForPods_nil_stays:
  assumes "podHeldIndex c = None"
  shows "HoldForPods hold name podIDs c = Returned (err, c') \<Longrightarrow> podHeldIndex c' = None"
    and "HoldForPods hold name podIDs c = Panic c' \<Longrightarrow> podHeldIndex c' = None"
proof -
  show "podHeldIndex c' = None" if r: "HoldForPods hold name podIDs c = Returned (err, c')"
  proof (cases "hostIndex c name")
    case None
    with r assms show ?thesis by (simp add: HoldForPods_def getSummary_def)
  next
    case (Some hs)
    show ?thesis
    proof (cases "holdSucceeded hold podIDs hs = []")
      case True
      then have "podHeldIndex c \<noteq> None \<or> holdSucceeded hold podIDs hs = []" by simp
      from HoldForPods_returns [OF Some this] r assms show ?thesis by auto
    next
      case False
      from HoldForPods_nil_index_panics [OF Some assms False] r show ?thesis by simp
    qed
  qed
  show "podHeldIndex c' = None" if p: "HoldForPods hold name podIDs c = Panic c'"
  proof (cases "hostIndex c name")
    case None
    with p show ?thesis by (simp add: HoldForPods_def getSummary_def)
  next
    case (Some hs)
    show ?thesis
    proof (cases "holdSucceeded hold podIDs hs = []")
      case True
      then have "podHeldIndex c \<noteq> None \<or> holdSucceeded hold podIDs hs = []" by simp
      from HoldForPods_returns [OF Some this] p show ?thesis by simp
    next
      case False
      from HoldForPods_nil_index_panics [OF Some assms False] p assms show ?thesis by auto
    qed
  qed
qed

lemma releaseLoop_nil:
  "snd (releaseLoop release ps (hs, None)) = None"
  by (induction ps arbitrary: hs) (simp_all add: removePodHold_def)

lemma ReleaseHoldForPods_nil_stays:
  assumes "podHeldIndex c = None"
  shows "podHeldIndex (snd (ReleaseHoldForPods release name podIDs c)) = None"
proof (cases "hostIndex c name")
  case None
  with assms show ?thesis by (simp add: ReleaseHoldForPods_def getSummary_def)
next
  case (Some hs)
  obtain hs' pidx' where r: "releaseLoop release podIDs (hs, None) = (hs', pidx')"
    by (cases "releaseLoop release podIDs (hs, None)")
  with releaseLoop_nil [of release podIDs hs] have "pidx' = None" by simp
  with Some assms r show ?thesis by (simp add: ReleaseHoldForPods_def getSummary_def)
qed

lemma fold_removePodHold_nil: "fold removePodHold ps None = None"
  by (induction ps) (simp_all add: removePodHold_def)

lemma resetLoop_nil_stays:
  "podHeldIndex c = None \<Longrightarrow> podHeldIndex (snd (resetLoop delExpired deadline order (ret, c))) = None"
proof (induction order arbitrary: ret c)
  case Nil
  then show ?case by simp
next
  case (Cons name rest)
  show ?case
  proof (cases "hostIndex c name")
    case None
    with Cons show ?thesis by simp
  next
    case (Some hs)
    obtain isFreed podIDExpired hs' where
      d: "delExpired deadline hs = ((isFreed, podIDExpired), hs')"
      by (cases "delExpired deadline hs") auto
    let ?c = "c\<lparr>hostIndex := (hostIndex c)(name \<mapsto> hs'),
                 podHeldIndex := fold removePodHold podIDExpired (podHeldIndex c)\<rparr>"
    have "podHeldIndex ?c = None"
      using Cons.prems by (simp add: fold_removePodHold_nil)
    from Cons.IH [OF this] Some d show ?thesis by simp
  qed
qed

lemma reachable_nil_index: "reachable c \<Longrightarrow> podHeldIndex c = None"
proof (induction rule: reachable.induct)
  case reach_New
  show ?case by (simp add: New_def)
next
  case (reach_handleHostEvent c event)
  then show ?case by (simp add: handleHostEvent_podHeldIndex)
next
  case (reach_handlePodEvent c handle podEvent)
  then show ?case by (simp add: handlePodEvent_podHeldIndex)
next
  case (reach_AcquireLeases c tm order hostFilter leases counts c')
  then show ?case by (simp add: AcquireLeases_podHeldIndex)
next
  case (reach_AcquireLeases_panic c tm order hostFilter c')
  then show ?case by (simp add: AcquireLeases_podHeldIndex)
next
  case (reach_TerminateLease c terminate name leaseID)
  then show ?case by (simp add: TerminateLease_podHeldIndex)
next
  case (reach_CompleteLease c completeFn name leaseID podToResMap)
  then show ?case by (simp add: CompleteLease_podHeldIndex)
next
  case (reach_HoldForPods c hold name podIDs err c')
  then show ?case using HoldForPods_nil_stays(1) by blast
next
  case (reach_HoldForPods_panic c hold name podIDs c')
  then show ?case using HoldForPods_nil_stays(2) by blast
next
  case (reach_ReleaseHoldForPods c release name podIDs)
  then show ?case by (simp add: ReleaseHoldForPods_nil_stays)
next
  case (reach_ResetExpiredHeldHostSummaries c delExpired order deadline)
  then show ?case by (simp add: ResetExpiredHeldHostSummaries_def resetLoop_nil_stays)
qed

section \<open>A call of HoldForPods in which a hold succeeds\<close>

lemma oneHost_index:
  "hostIndex oneHost = [''h1'' \<mapsto> newKubeletHostSummary ''h1'' (Some cap1) ''1'']"
  "podHeldIndex oneHost = None"
  by (simp_all add: oneHost_def handleHostEvent_def addHost_def hostEvent_def New_def Let_def)

lemma reachable_oneHost: "reachable oneHost"
  unfolding oneHost_def by (intro reach_handleHostEvent reach_New)

text \<open>
  C10, at the states of a cache made by \<^verbatim>\<open>New\<close>. In every such state and for
  every implementation of \<^verbatim>\<open>HoldForPod\<close>, a call of \<^verbatim>\<open>HoldForPods\<close> on a host of
  the index in which the hold of some pod succeeds panics in \<^verbatim>\<open>addPodHold\<close>, at the
  first such pod: it returns no error, \<^verbatim>\<open>podHeldIndex\<close> stays \<^verbatim>\<open>nil\<close> and records
  nothing, and the pods after that one are not tried. Whether another pod of the call
  fails makes no difference.
\<close>

theorem HoldForPods_panics_on_first_hold:
  assumes "reachable c" and "hostIndex c name = Some hs"
    and "holdSucceeded hold podIDs hs \<noteq> []"
  shows "HoldForPods hold name podIDs c =
           Panic (c\<lparr>hostIndex := (hostIndex c)(name \<mapsto> heldAtFirst hold podIDs hs)\<rparr>)
         \<and> podHeldIndex c = None"
  using HoldForPods_nil_index_panics [OF assms(2) reachable_nil_index [OF assms(1)] assms(3)]
    reachable_nil_index [OF assms(1)]
  by simp

text \<open>
  The call \<^verbatim>\<open>HoldForPods(h1, [p2, p1])\<close> on a new cache that an \<^verbatim>\<open>AddHost\<close> event has
  given the host \<open>h1\<close>, where the summary refuses \<open>p2\<close> and holds \<open>p1\<close>: the call
  panics, with \<open>p1\<close> held by the summary and nothing recorded.
\<close>

theorem HoldForPods_panics_on_first_hold_witness:
  "reachable oneHost
   \<and> hostIndex oneHost ''h1'' = Some (newKubeletHostSummary ''h1'' (Some cap1) ''1'')
   \<and> holdErrors (holdAllBut ''p2'') [''p2'', ''p1'']
        (newKubeletHostSummary ''h1'' (Some cap1) ''1'') = [ConflictingStatus]
   \<and> holdSucceeded (holdAllBut ''p2'') [''p2'', ''p1'']
        (newKubeletHostSummary ''h1'' (Some cap1) ''1'') = [''p1'']
   \<and> HoldForPods (holdAllBut ''p2'') ''h1'' [''p2'', ''p1''] oneHost = Panic oneHostHeld
   \<and> podHeldIndex oneHost = None
   \<and> GetHostHeldForPod ''p1'' oneHostHeld = []"
proof -
  let ?hs = "newKubeletHostSummary ''h1'' (Some cap1) ''1'' :: rat HostSummary"
  let ?ps = "[''p2'', ''p1'']"
  have h: "hostIndex oneHost ''h1'' = Some ?hs"
    by (simp add: oneHost_index)
  have e: "holdErrors (holdAllBut ''p2'') ?ps ?hs = [ConflictingStatus]"
    by (simp add: holdErrors_def holdAllBut_def HoldForPod_def newKubeletHostSummary_def)
  have s: "holdSucceeded (holdAllBut ''p2'') ?ps ?hs = [''p1'']"
    by (simp add: holdSucceeded_def holdAllBut_def HoldForPod_def newKubeletHostSummary_def)
  have s': "holdSucceeded (holdAllBut ''p2'') ?ps ?hs \<noteq> []"
    by (simp add: s)
  have f: "heldAtFirst (holdAllBut ''p2'') ?ps ?hs = heldHost"
    by (simp add: holdAllBut_def HoldForPod_def heldHost_def newKubeletHostSummary_def)
  have c: "oneHost\<lparr>hostIndex := (hostIndex oneHost)(''h1'' \<mapsto> heldHost)\<rparr> = oneHostHeld"
    by (simp add: oneHostHeld_def oneHost_def handleHostEvent_def addHost_def hostEvent_def
        New_def Let_def)
  have g: "GetHostHeldForPod ''p1'' oneHostHeld = []"
    by (simp add: GetHostHeldForPod_def oneHostHeld_def)
  from HoldForPods_panics_on_first_hold [OF reachable_oneHost h s'] reachable_oneHost h e s f c g
  show ?thesis by simp
qed

text \<open>
  What the call does when it does not panic, that is on a cache whose
  \<^verbatim>\<open>podHeldIndex\<close> has been allocated, which no cache made by \<^verbatim>\<open>New\<close> is, or
  when every hold fails: it returns the single error \<open>Internal\<close> that wraps the
  errors of the pods that failed, in their order; the summary is the one that all the
  calls left, with no hold undone; every pod that succeeded is in \<^verbatim>\<open>podHeldIndex\<close>
  under the hostname, and no other entry changed.
\<close>

lemma HoldForPods_with_allocated_index:
  assumes "hostIndex c name = Some hs"
    and "holdErrors hold podIDs hs \<noteq> []"
    and "podHeldIndex c \<noteq> None \<or> holdSucceeded hold podIDs hs = []"
  shows "HoldForPods hold name podIDs c =
           Returned
             (Some (Internal (holdErrors hold podIDs hs)),
              c\<lparr>hostIndex := (hostIndex c)(name \<mapsto> holdFinal hold podIDs hs),
                podHeldIndex :=
                  map_option (recordHolds name (holdSucceeded hold podIDs hs)) (podHeldIndex c)\<rparr>)"
  using assms(2) by (simp add: HoldForPods_returns [OF assms(1,3)])

text \<open>
  The specified \<^verbatim>\<open>HoldForPod\<close> fails only on a \<open>Placing\<close> host and leaves it so: in
  one call of \<^verbatim>\<open>HoldForPods\<close> it then fails for every pod, and the call returns the
  error \<open>Internal\<close> and leaves the cache as it was.
\<close>

lemma HoldForPod_keepsHolds: "keepsHolds (HoldForPod now ttl)"
  by (auto simp add: keepsHolds_def HoldForPod_def)

lemma HoldForPod_outcomes:
  "holdOutcomes (HoldForPod now ttl) ps hs =
     map (\<lambda>p. (p, if hs_status hs = Placing then Some ConflictingStatus else None)) ps"
  by (induction ps arbitrary: hs) (simp_all add: HoldForPod_def)

lemma HoldForPod_all_or_nothing:
  "holdErrors (HoldForPod now ttl) ps hs \<noteq> [] \<Longrightarrow> holdSucceeded (HoldForPod now ttl) ps hs = []"
  by (cases "hs_status hs = Placing")
    (simp_all add: holdErrors_def holdSucceeded_def HoldForPod_outcomes
      List.map_filter_def comp_def)

lemma HoldForPods_on_placing_host:
  assumes "hostIndex c name = Some hs" "hs_status hs = Placing" "podIDs \<noteq> []"
  shows "HoldForPods (HoldForPod now ttl) name podIDs c
         = Returned (Some (Internal (map (\<lambda>p. ConflictingStatus) podIDs)), c)"
proof -
  have o: "holdOutcomes (HoldForPod now ttl) podIDs hs = map (\<lambda>p. (p, Some ConflictingStatus)) podIDs"
    using assms(2) by (simp add: HoldForPod_outcomes)
  have e: "holdErrors (HoldForPod now ttl) podIDs hs = map (\<lambda>p. ConflictingStatus) podIDs"
    by (simp add: holdErrors_def o List.map_filter_def comp_def)
  have s: "holdSucceeded (HoldForPod now ttl) podIDs hs = []"
    by (simp add: holdSucceeded_def o)
  have f: "holdFinal (HoldForPod now ttl) ps hs = hs" for ps
    using assms(2) unfolding holdFinal_def by (induction ps) (simp_all add: HoldForPod_def)
  have u: "(hostIndex c)(name \<mapsto> hs) = hostIndex c"
    using assms(1) by (rule map_upd_triv)
  have r: "map_option (recordHolds name []) (podHeldIndex c) = podHeldIndex c"
    by (cases "podHeldIndex c") (simp_all add: recordHolds_def)
  have "podHeldIndex c \<noteq> None \<or> holdSucceeded (HoldForPod now ttl) podIDs hs = []"
    by (simp add: s)
  from HoldForPods_returns [OF assms(1) this] assms(3) show ?thesis
    by (simp add: e s f u r)
qed

text \<open>
  On a host that is not \<open>Placing\<close>, the specified \<^verbatim>\<open>HoldForPod\<close> succeeds, so that
  in every state of a cache made by \<^verbatim>\<open>New\<close> a call of \<^verbatim>\<open>HoldForPods\<close> with a pod
  panics: no hold is ever recorded.
\<close>

lemma HoldForPods_of_ready_host_panics:
  assumes "reachable c" and "hostIndex c name = Some hs" and "hs_status hs \<noteq> Placing"
    and "podIDs \<noteq> []"
  shows "\<exists>c'. HoldForPods (HoldForPod now ttl) name podIDs c = Panic c'"
proof -
  have "holdSucceeded (HoldForPod now ttl) podIDs hs \<noteq> []"
    using assms(3,4) by (simp add: holdSucceeded_def HoldForPod_outcomes)
  from HoldForPods_nil_index_panics [OF assms(2) reachable_nil_index [OF assms(1)] this]
  show ?thesis by blast
qed

section \<open>Matching hosts\<close>

subsection \<open>Lists, caps and counts\<close>

lemma set_firsts [simp]: "set (firsts xs) = set xs"
  by (induction xs) auto

lemma firsts_distinct: "distinct xs \<Longrightarrow> firsts xs = xs"
  by (induction xs) (auto simp add: filter_id_conv)

lemma filter_firsts_skip:
  "\<not> el t \<Longrightarrow> filter el (firsts (t # ts)) = filter el (firsts ts)"
  by (auto intro: filter_cong)

lemma filter_firsts_take:
  assumes "el t"
  shows "filter el (firsts (t # ts)) = t # filter (el(t := False)) (firsts ts)"
proof -
  have "(\<lambda>x. x \<noteq> t \<and> el x) = el(t := False)" by (rule ext) simp
  with assms show ?thesis by simp
qed

lemma capped_Nil [simp]: "capped cap [] = []"
  by (simp add: capped_def split: option.splits)

lemma capped_full [simp]: "capped (Some 0) xs = []"
  by (simp add: capped_def)

lemma capped_Cons:
  "cap \<noteq> Some 0 \<Longrightarrow> capped cap (x # xs) = x # capped (map_option (\<lambda>k. k - 1) cap) xs"
  by (cases cap) (auto simp add: capped_def take_Cons')

lemma tried_None [simp]: "tried None el ps = ps"
  by (cases ps) simp_all

lemma tried_full: "tried (Some 0) el (p # ps) = [p]"
  by simp

lemma tried_skip:
  "\<not> el p \<Longrightarrow> cap \<noteq> Some 0 \<Longrightarrow> tried cap el (p # ps) = p # tried cap el ps"
  by (cases cap; cases "the cap") auto

lemma tried_fill: "el p \<Longrightarrow> tried (Some (Suc 0)) el (p # ps) = [p]"
  by simp

lemma tried_take:
  "el p \<Longrightarrow> cap \<noteq> Some 0 \<Longrightarrow> cap \<noteq> Some (Suc 0) \<Longrightarrow>
   tried cap el (p # ps) = p # tried (map_option (\<lambda>k. k - 1) cap) (el(p := False)) ps"
  by (cases cap; cases "the cap") auto

lemma tried_all:
  "length (filter el (firsts ps)) < k \<Longrightarrow> tried (Some k) el ps = ps"
proof (induction ps arbitrary: k el)
  case Nil
  show ?case by simp
next
  case (Cons p ps)
  from Cons.prems obtain k' where k: "k = Suc k'" by (cases k) auto
  show ?case
  proof (cases "el p")
    case True
    with Cons.prems k have less: "length (filter (el(p := False)) (firsts ps)) < k'"
      by (simp add: filter_firsts_take del: firsts.simps)
    then have "k' \<noteq> 0" by simp
    with True k have "tried (Some k) el (p # ps) = p # tried (Some k') (el(p := False)) ps"
      by simp
    also have "\<dots> = p # ps" by (simp only: Cons.IH [OF less])
    finally show ?thesis .
  next
    case False
    with Cons.prems have "length (filter el (firsts ps)) < k"
      by (simp add: filter_firsts_skip del: firsts.simps)
    from Cons.IH [OF this] False k show ?thesis by simp
  qed
qed

lemma sumCounts_empty [simp]: "sumCounts Map.empty = 0"
  by (simp add: sumCounts_def)

lemma finite_dom_increment: "finite (dom counts) \<Longrightarrow> finite (dom (increment counts reason))"
  by (simp add: increment_def)

lemma sumCounts_increment:
  assumes "finite (dom counts)"
  shows "sumCounts (increment counts reason) = Suc (sumCounts counts)"
proof (cases "counts reason")
  case None
  let ?c = "increment counts reason"
  have d: "dom ?c = insert reason (dom counts)" by (simp add: increment_def)
  have n: "reason \<notin> dom counts" using None by auto
  have "sumCounts ?c = (\<Sum>r \<in> insert reason (dom counts). the (?c r))"
    unfolding sumCounts_def d by (rule refl)
  also have "\<dots> = the (?c reason) + (\<Sum>r \<in> dom counts. the (?c r))"
    using assms n by (rule sum.insert)
  also have "(\<Sum>r \<in> dom counts. the (?c r)) = (\<Sum>r \<in> dom counts. the (counts r))"
    using n by (intro sum.cong) (auto simp add: increment_def)
  also have "(\<Sum>r \<in> dom counts. the (counts r)) = sumCounts counts"
    by (simp add: sumCounts_def)
  also have "the (?c reason) = 1"
    using None by (simp add: increment_def)
  finally show ?thesis by simp
next
  case (Some k)
  let ?c = "increment counts reason"
  have d: "dom ?c = dom counts" using Some by (auto simp add: increment_def)
  have i: "reason \<in> dom counts" using Some by auto
  have "sumCounts ?c = (\<Sum>r \<in> dom counts. the (?c r))"
    unfolding sumCounts_def d by (rule refl)
  also have "\<dots> = the (?c reason) + (\<Sum>r \<in> dom counts - {reason}. the (?c r))"
    using assms i by (rule sum.remove)
  also have "(\<Sum>r \<in> dom counts - {reason}. the (?c r))
             = (\<Sum>r \<in> dom counts - {reason}. the (counts r))"
    by (intro sum.cong) (auto simp add: increment_def)
  also have "the (?c reason) = Suc (the (counts reason))"
    using Some by (simp add: increment_def)
  finally have "sumCounts ?c
                = Suc (the (counts reason) + (\<Sum>r \<in> dom counts - {reason}. the (counts r)))"
    by simp
  also have "the (counts reason) + (\<Sum>r \<in> dom counts - {reason}. the (counts r))
             = sumCounts counts"
    unfolding sumCounts_def using assms i by (rule sum.remove [symmetric])
  finally show ?thesis .
qed

subsection \<open>The room of a matcher\<close>

lemma hostLimitReached_room: "hostLimitReached m \<longleftrightarrow> room m = Some 0"
  by (auto simp add: hostLimitReached_def room_def split: option.splits)

lemma hostLimitReached_counts [simp]:
  "hostLimitReached (m\<lparr>filterCounts := x\<rparr>) = hostLimitReached m"
  by (simp add: hostLimitReached_def split: option.splits)

lemma room_counts [simp]: "room (m\<lparr>filterCounts := x\<rparr>) = room m"
  by (simp add: room_def)

lemma room_names: "room (m\<lparr>hostNames := hostNames m @ [t]\<rparr>) = map_option (\<lambda>k. k - 1) (room m)"
  by (cases "host_limit m") (simp_all add: room_def)

lemma room_NewMatcher [simp]: "room (NewMatcher f) = max_hosts f"
  by (cases "max_hosts f") (simp_all add: room_def NewMatcher_def)

subsection \<open>Eligible hosts\<close>

lemma eligible_acquired:
  assumes "acquires tm" and "idx t = Some hs" and "fst (tm f hs) = Matched"
  shows "eligible tm f (idx(t \<mapsto> snd (tm f hs))) = (eligible tm f idx)(t := False)"
proof
  fix x
  have "fst (tm f (snd (tm f hs))) \<noteq> Matched"
    using assms(1,3) unfolding acquires_def by (metis (full_types))
  then show "eligible tm f (idx(t \<mapsto> snd (tm f hs))) x = ((eligible tm f idx)(t := False)) x"
    by (simp add: eligible_def)
qed

lemma eligible_present: "eligible tm f idx x \<Longrightarrow> idx x \<noteq> None"
  by (auto simp add: eligible_def split: option.splits)

subsection \<open>The loop over the index\<close>

text \<open>
  The course of the loop, by the cases of one iteration: the host is absent; the cap is
  reached already; the host matches and fills the room; the host matches and room is
  left; the host does not match.
\<close>

lemma rangeLoop_cases:
  assumes acq: "acquires tm"
    and nil: "\<And>m idx. P [] m idx (m, idx)"
    and absent: "\<And>t ts m idx res. idx t = None \<Longrightarrow> P ts m idx res \<Longrightarrow> P (t # ts) m idx res"
    and full: "\<And>t ts m idx hs. idx t = Some hs \<Longrightarrow> hostLimitReached m \<Longrightarrow>
       P (t # ts) m idx
         (m\<lparr>filterCounts := increment (filterCounts m) ''MATCH_MAX_HOST_LIMIT''\<rparr>, idx)"
    and fill: "\<And>t ts m idx hs. idx t = Some hs \<Longrightarrow> \<not> hostLimitReached m \<Longrightarrow>
       fst (tm (m_hostFilter m) hs) = Matched \<Longrightarrow>
       hostLimitReached (m\<lparr>hostNames := hostNames m @ [t]\<rparr>) \<Longrightarrow>
       P (t # ts) m idx
         (m\<lparr>hostNames := hostNames m @ [t]\<rparr>, idx(t \<mapsto> snd (tm (m_hostFilter m) hs)))"
    and match: "\<And>t ts m idx hs res. idx t = Some hs \<Longrightarrow> \<not> hostLimitReached m \<Longrightarrow>
       fst (tm (m_hostFilter m) hs) = Matched \<Longrightarrow>
       \<not> hostLimitReached (m\<lparr>hostNames := hostNames m @ [t]\<rparr>) \<Longrightarrow>
       P ts (m\<lparr>hostNames := hostNames m @ [t]\<rparr>) (idx(t \<mapsto> snd (tm (m_hostFilter m) hs))) res \<Longrightarrow>
       P (t # ts) m idx res"
    and mismatch: "\<And>t ts m idx hs reason res. idx t = Some hs \<Longrightarrow> \<not> hostLimitReached m \<Longrightarrow>
       fst (tm (m_hostFilter m) hs) = Mismatch reason \<Longrightarrow>
       P ts (m\<lparr>filterCounts := increment (filterCounts m) reason\<rparr>) idx res \<Longrightarrow>
       P (t # ts) m idx res"
  shows "P ts m idx (rangeLoop tm ts (m, idx))"
proof (induction ts arbitrary: m idx)
  case Nil
  show ?case by (simp add: nil)
next
  case (Cons t ts)
  show ?case
  proof (cases "idx t")
    case None
    have "P (t # ts) m idx (rangeLoop tm ts (m, idx))"
      using None Cons.IH by (rule absent)
    with None show ?thesis by simp
  next
    case (Some hs)
    show ?thesis
    proof (cases "hostLimitReached m")
      case True
      let ?m = "m\<lparr>filterCounts := increment (filterCounts m) ''MATCH_MAX_HOST_LIMIT''\<rparr>"
      have "hostLimitReached ?m" using True by simp
      moreover have "P (t # ts) m idx (?m, idx)"
        using Some True by (rule full)
      ultimately show ?thesis using Some True
        by (simp add: tryMatch_def map_upd_triv)
    next
      case False
      obtain r hs' where tm: "tm (m_hostFilter m) hs = (r, hs')"
        by (cases "tm (m_hostFilter m) hs")
      show ?thesis
      proof (cases r)
        case Matched
        let ?m = "m\<lparr>hostNames := hostNames m @ [t]\<rparr>"
        let ?idx = "idx(t \<mapsto> snd (tm (m_hostFilter m) hs))"
        have f: "fst (tm (m_hostFilter m) hs) = Matched" using tm Matched by simp
        have s: "snd (tm (m_hostFilter m) hs) = hs'" using tm by simp
        show ?thesis
        proof (cases "hostLimitReached ?m")
          case True
          have "P (t # ts) m idx (?m, ?idx)"
            using Some False f True by (rule fill)
          with Some False tm Matched True s show ?thesis
            by (simp add: tryMatch_def)
        next
          case nr: False
          have "P (t # ts) m idx (rangeLoop tm ts (?m, ?idx))"
            using Some False f nr Cons.IH by (rule match)
          with Some False tm Matched nr s show ?thesis
            by (simp add: tryMatch_def)
        qed
      next
        case (Mismatch reason)
        let ?m = "m\<lparr>filterCounts := increment (filterCounts m) reason\<rparr>"
        have f: "fst (tm (m_hostFilter m) hs) = Mismatch reason" using tm Mismatch by simp
        have "snd (tm (m_hostFilter m) hs) = hs"
          using acq f unfolding acquires_def by (metis (full_types) MatchResult.distinct(1))
        then have s: "hs' = hs" using tm by simp
        have nr: "\<not> hostLimitReached ?m" using False by simp
        have "P (t # ts) m idx (rangeLoop tm ts (?m, idx))"
          using Some False f Cons.IH by (rule mismatch)
        with Some False tm Mismatch nr s show ?thesis
          by (simp add: tryMatch_def map_upd_triv)
      qed
    qed
  qed
qed

lemma eligible_at: "idx t = Some hs \<Longrightarrow> eligible tm f idx t = (fst (tm f hs) = Matched)"
  by (simp add: eligible_def)

lemma eligible_absent: "idx t = None \<Longrightarrow> \<not> eligible tm f idx t"
  by (simp add: eligible_def)

lemma room_after_fill:
  assumes "\<not> hostLimitReached m" and "hostLimitReached (m\<lparr>hostNames := hostNames m @ [t]\<rparr>)"
  shows "room m = Some (Suc 0)"
  using assms by (auto simp add: hostLimitReached_def room_def split: option.splits)

lemma room_after_match:
  assumes "\<not> hostLimitReached m" and "\<not> hostLimitReached (m\<lparr>hostNames := hostNames m @ [t]\<rparr>)"
  shows "room m \<noteq> Some 0" and "room m \<noteq> Some (Suc 0)"
  using assms by (auto simp add: hostLimitReached_def room_def split: option.splits)

text \<open>The hosts that the loop matches, and the fields that it leaves.\<close>

lemma rangeLoop_names:
  assumes "acquires tm"
  shows "hostNames (fst (rangeLoop tm ts (m, idx))) =
           hostNames m @ capped (room m) (filter (eligible tm (m_hostFilter m) idx) (firsts ts))
         \<and> m_hostFilter (fst (rangeLoop tm ts (m, idx))) = m_hostFilter m
         \<and> host_limit (fst (rangeLoop tm ts (m, idx))) = host_limit m"
proof -
  let ?P = "\<lambda>ts (m :: 'a Matcher) idx (res :: 'a Matcher \<times> (string \<rightharpoonup> 'a HostSummary)).
      hostNames (fst res) =
        hostNames m @ capped (room m) (filter (eligible tm (m_hostFilter m) idx) (firsts ts))
      \<and> m_hostFilter (fst res) = m_hostFilter m
      \<and> host_limit (fst res) = host_limit m"
  have "?P ts m idx (rangeLoop tm ts (m, idx))"
  proof (rule rangeLoop_cases [of tm ?P, OF assms], goal_cases)
    case (1 m idx)
    show ?case by simp
  next
    case (2 t ts m idx res)
    have "\<not> eligible tm (m_hostFilter m) idx t" using 2(1) by (rule eligible_absent)
    then have "filter (eligible tm (m_hostFilter m) idx) (firsts (t # ts))
               = filter (eligible tm (m_hostFilter m) idx) (firsts ts)"
      by (rule filter_firsts_skip)
    with 2(2) show ?case by simp
  next
    case (3 t ts m idx hs)
    then have "room m = Some 0" by (simp add: hostLimitReached_room)
    then show ?case by simp
  next
    case (4 t ts m idx hs)
    have r: "room m = Some (Suc 0)" using 4(2,4) by (rule room_after_fill)
    have "eligible tm (m_hostFilter m) idx t" using 4(1,3) by (simp add: eligible_at)
    then have "filter (eligible tm (m_hostFilter m) idx) (firsts (t # ts))
               = t # filter ((eligible tm (m_hostFilter m) idx)(t := False)) (firsts ts)"
      by (rule filter_firsts_take)
    then show ?case by (simp add: r capped_Cons del: firsts.simps)
  next
    case (5 t ts m idx hs res)
    let ?f = "m_hostFilter m"
    have r: "room m \<noteq> Some 0" using 5(2,4) by (rule room_after_match)
    have e: "eligible tm ?f (idx(t \<mapsto> snd (tm ?f hs))) = (eligible tm ?f idx)(t := False)"
      using assms 5(1,3) by (rule eligible_acquired)
    have "eligible tm ?f idx t" using 5(1,3) by (simp add: eligible_at)
    then have "filter (eligible tm ?f idx) (firsts (t # ts))
               = t # filter ((eligible tm ?f idx)(t := False)) (firsts ts)"
      by (rule filter_firsts_take)
    with 5(5) show ?case by (simp add: e room_names capped_Cons [OF r] del: firsts.simps)
  next
    case (6 t ts m idx hs reason res)
    have "\<not> eligible tm (m_hostFilter m) idx t" using 6(1,3) by (simp add: eligible_at)
    then have "filter (eligible tm (m_hostFilter m) idx) (firsts (t # ts))
               = filter (eligible tm (m_hostFilter m) idx) (firsts ts)"
      by (rule filter_firsts_skip)
    with 6(4) show ?case by (simp del: firsts.simps)
  qed
  then show ?thesis by simp
qed

text \<open>The index that the loop leaves: the hosts that it has matched are changed by their try.\<close>

lemma rangeLoop_index:
  assumes "acquires tm"
  shows "snd (rangeLoop tm ts (m, idx)) =
           (\<lambda>x. if x \<in> set (capped (room m)
                               (filter (eligible tm (m_hostFilter m) idx) (firsts ts)))
                then map_option (\<lambda>hs. snd (tm (m_hostFilter m) hs)) (idx x) else idx x)"
proof -
  let ?P = "\<lambda>ts (m :: 'a Matcher) idx (res :: 'a Matcher \<times> (string \<rightharpoonup> 'a HostSummary)).
      snd res =
        (\<lambda>x. if x \<in> set (capped (room m)
                            (filter (eligible tm (m_hostFilter m) idx) (firsts ts)))
             then map_option (\<lambda>hs. snd (tm (m_hostFilter m) hs)) (idx x) else idx x)"
  have "?P ts m idx (rangeLoop tm ts (m, idx))"
  proof (rule rangeLoop_cases [of tm ?P, OF assms], goal_cases)
    case (1 m idx)
    show ?case by simp
  next
    case (2 t ts m idx res)
    have "\<not> eligible tm (m_hostFilter m) idx t" using 2(1) by (rule eligible_absent)
    then have "filter (eligible tm (m_hostFilter m) idx) (firsts (t # ts))
               = filter (eligible tm (m_hostFilter m) idx) (firsts ts)"
      by (rule filter_firsts_skip)
    with 2(2) show ?case by (simp del: firsts.simps)
  next
    case (3 t ts m idx hs)
    then have "room m = Some 0" by (simp add: hostLimitReached_room)
    then show ?case by simp
  next
    case (4 t ts m idx hs)
    have r: "room m = Some (Suc 0)" using 4(2,4) by (rule room_after_fill)
    have "eligible tm (m_hostFilter m) idx t" using 4(1,3) by (simp add: eligible_at)
    then have "filter (eligible tm (m_hostFilter m) idx) (firsts (t # ts))
               = t # filter ((eligible tm (m_hostFilter m) idx)(t := False)) (firsts ts)"
      by (rule filter_firsts_take)
    then show ?case using 4(1) by (auto simp add: r capped_Cons simp del: firsts.simps)
  next
    case (5 t ts m idx hs res)
    let ?f = "m_hostFilter m"
    let ?el = "eligible tm ?f idx"
    let ?A = "capped (map_option (\<lambda>k. k - 1) (room m)) (filter (?el(t := False)) (firsts ts))"
    have r: "room m \<noteq> Some 0" using 5(2,4) by (rule room_after_match)
    have e: "eligible tm ?f (idx(t \<mapsto> snd (tm ?f hs))) = ?el(t := False)"
      using assms 5(1,3) by (rule eligible_acquired)
    have "?el t" using 5(1,3) by (simp add: eligible_at)
    then have f: "filter ?el (firsts (t # ts)) = t # filter (?el(t := False)) (firsts ts)"
      by (rule filter_firsts_take)
    have "set ?A \<subseteq> set (filter (?el(t := False)) (firsts ts))"
      by (cases "room m") (auto simp add: capped_def dest: in_set_takeD)
    then have n: "t \<notin> set ?A" by auto
    have mf: "m_hostFilter (m\<lparr>hostNames := hostNames m @ [t]\<rparr>) = ?f" by simp
    have "snd res =
        (\<lambda>x. if x \<in> set ?A then map_option (\<lambda>hs. snd (tm ?f hs)) ((idx(t \<mapsto> snd (tm ?f hs))) x)
             else (idx(t \<mapsto> snd (tm ?f hs))) x)"
      using 5(5) unfolding mf e room_names .
    also have "\<dots> = (\<lambda>x. if x \<in> set (t # ?A) then map_option (\<lambda>hs. snd (tm ?f hs)) (idx x)
                          else idx x)"
      using n 5(1) by (auto simp add: fun_eq_iff)
    finally show ?case by (simp add: f capped_Cons [OF r] del: firsts.simps)
  next
    case (6 t ts m idx hs reason res)
    have "\<not> eligible tm (m_hostFilter m) idx t" using 6(1,3) by (simp add: eligible_at)
    then have "filter (eligible tm (m_hostFilter m) idx) (firsts (t # ts))
               = filter (eligible tm (m_hostFilter m) idx) (firsts ts)"
      by (rule filter_firsts_skip)
    with 6(4) show ?case by (simp del: firsts.simps cong: if_cong)
  qed
  then show ?thesis by simp
qed

text \<open>The tries of the loop: each adds one to a count or one matched host.\<close>

lemma present_Cons_absent: "idx t = None \<Longrightarrow> present idx (t # ts) = present idx ts"
  by (simp add: present_def)

lemma present_Cons_present: "idx t = Some hs \<Longrightarrow> present idx (t # ts) = t # present idx ts"
  by (simp add: present_def)

lemma present_upd: "idx t = Some hs \<Longrightarrow> present (idx(t \<mapsto> hs')) ts = present idx ts"
  by (auto simp add: present_def intro: filter_cong)

lemma rangeLoop_counts:
  assumes "acquires tm" and "finite (dom (filterCounts m))"
  shows "finite (dom (filterCounts (fst (rangeLoop tm ts (m, idx)))))
         \<and> sumCounts (filterCounts (fst (rangeLoop tm ts (m, idx))))
             + length (hostNames (fst (rangeLoop tm ts (m, idx))))
           = sumCounts (filterCounts m) + length (hostNames m)
             + length (tried (room m) (eligible tm (m_hostFilter m) idx) (present idx ts))"
proof -
  let ?P = "\<lambda>ts (m :: 'a Matcher) idx (res :: 'a Matcher \<times> (string \<rightharpoonup> 'a HostSummary)).
      finite (dom (filterCounts m)) \<longrightarrow>
      finite (dom (filterCounts (fst res)))
      \<and> sumCounts (filterCounts (fst res)) + length (hostNames (fst res))
        = sumCounts (filterCounts m) + length (hostNames m)
          + length (tried (room m) (eligible tm (m_hostFilter m) idx) (present idx ts))"
  have "?P ts m idx (rangeLoop tm ts (m, idx))"
  proof (rule rangeLoop_cases [of tm ?P, OF assms(1)], goal_cases)
    case (1 m idx)
    show ?case by (simp add: present_def)
  next
    case (2 t ts m idx res)
    then show ?case by (simp add: present_Cons_absent)
  next
    case (3 t ts m idx hs)
    then have "room m = Some 0" by (simp add: hostLimitReached_room)
    then show ?case
      using 3(1) by (simp add: present_Cons_present sumCounts_increment finite_dom_increment)
  next
    case (4 t ts m idx hs)
    have r: "room m = Some (Suc 0)" using 4(2,4) by (rule room_after_fill)
    have "eligible tm (m_hostFilter m) idx t" using 4(1,3) by (simp add: eligible_at)
    then show ?case using 4(1) by (simp add: present_Cons_present r)
  next
    case (5 t ts m idx hs res)
    let ?f = "m_hostFilter m"
    let ?el = "eligible tm ?f idx"
    have r: "room m \<noteq> Some 0" "room m \<noteq> Some (Suc 0)"
      using 5(2,4) by (rule room_after_match)+
    have e: "eligible tm ?f (idx(t \<mapsto> snd (tm ?f hs))) = ?el(t := False)"
      using assms(1) 5(1,3) by (rule eligible_acquired)
    have p: "present (idx(t \<mapsto> snd (tm ?f hs))) ts = present idx ts"
      using 5(1) by (rule present_upd)
    have mf: "m_hostFilter (m\<lparr>hostNames := hostNames m @ [t]\<rparr>) = ?f" by simp
    have t: "tried (room m) ?el (present idx (t # ts))
             = t # tried (map_option (\<lambda>k. k - 1) (room m)) (?el(t := False)) (present idx ts)"
      using 5(1,3) r by (simp add: present_Cons_present tried_take eligible_at)
    show ?case
    proof
      assume "finite (dom (filterCounts m))"
      with 5(5) have
        "finite (dom (filterCounts (fst res)))
         \<and> sumCounts (filterCounts (fst res)) + length (hostNames (fst res))
           = sumCounts (filterCounts m) + length (hostNames m @ [t])
             + length (tried (map_option (\<lambda>k. k - 1) (room m)) (?el(t := False))
                        (present idx ts))"
        unfolding mf e p room_names by simp
      then show "finite (dom (filterCounts (fst res)))
         \<and> sumCounts (filterCounts (fst res)) + length (hostNames (fst res))
           = sumCounts (filterCounts m) + length (hostNames m)
             + length (tried (room m) ?el (present idx (t # ts)))"
        unfolding t by simp
    qed
  next
    case (6 t ts m idx hs reason res)
    have n: "\<not> eligible tm (m_hostFilter m) idx t" using 6(1,3) by (simp add: eligible_at)
    have r: "room m \<noteq> Some 0" using 6(2) by (simp add: hostLimitReached_room)
    have t: "tried (room m) (eligible tm (m_hostFilter m) idx) (present idx (t # ts))
             = t # tried (room m) (eligible tm (m_hostFilter m) idx) (present idx ts)"
      using 6(1) n r by (simp add: present_Cons_present tried_skip)
    show ?case
    proof
      assume f: "finite (dom (filterCounts m))"
      then have "finite (dom (increment (filterCounts m) reason))"
        by (rule finite_dom_increment)
      with 6(4) f show "finite (dom (filterCounts (fst res)))
         \<and> sumCounts (filterCounts (fst res)) + length (hostNames (fst res))
           = sumCounts (filterCounts m) + length (hostNames m)
             + length (tried (room m) (eligible tm (m_hostFilter m) idx) (present idx (t # ts)))"
        unfolding t by (simp add: sumCounts_increment)
    qed
  qed
  with assms(2) show ?thesis by simp
qed

subsection \<open>The loop over the hints\<close>

text \<open>
  In a well-named index the loop over the hints tries the hosts under the names they
  are filed under, as the loop over the index does.
\<close>

lemma wellNamed_upd:
  "wellNamed idx \<Longrightarrow> GetHostname hs' = t \<Longrightarrow> wellNamed (idx(t \<mapsto> hs'))"
  by (simp add: wellNamed_def)

lemma tryMatch_hostname:
  assumes "acquires tm"
  shows "GetHostname (snd (tryMatch tm name hs m)) = GetHostname hs"
proof (cases "hostLimitReached m")
  case True
  then show ?thesis by (simp add: tryMatch_def)
next
  case False
  have "GetHostname (snd (tm (m_hostFilter m) hs)) = GetHostname hs"
    using assms unfolding acquires_def by blast
  with False show ?thesis
    by (cases "tm (m_hostFilter m) hs"; cases "fst (tm (m_hostFilter m) hs)")
      (auto simp add: tryMatch_def)
qed

lemma hintLoop_wellNamed:
  assumes "acquires tm"
  shows "wellNamed idx \<Longrightarrow> hintLoop tm hints (m, idx) = rangeLoop tm hints (m, idx)"
proof (induction hints arbitrary: m idx)
  case Nil
  show ?case by simp
next
  case (Cons t ts)
  show ?case
  proof (cases "idx t")
    case None
    with Cons show ?thesis by simp
  next
    case (Some hs)
    have n: "GetHostname hs = t" using Cons.prems Some by (simp add: wellNamed_def)
    obtain m' hs' where tr: "tryMatch tm t hs m = (m', hs')" by (cases "tryMatch tm t hs m")
    have "GetHostname hs' = t"
      using tryMatch_hostname [OF assms, of t hs m] tr n by simp
    with Cons.prems have "wellNamed (idx(t \<mapsto> hs'))" by (rule wellNamed_upd)
    then have "hintLoop tm ts (m', idx(t \<mapsto> hs')) = rangeLoop tm ts (m', idx(t \<mapsto> hs'))"
      by (rule Cons.IH)
    with Some n tr show ?thesis by simp
  qed
qed

subsection \<open>After a loop\<close>

lemma rangeLoop_dom:
  assumes "acquires tm"
  shows "dom (snd (rangeLoop tm ts (m, idx))) = dom idx"
  unfolding rangeLoop_index [OF assms] by (auto split: if_splits)

lemma rangeLoop_wellNamed:
  assumes "acquires tm" and "wellNamed idx"
  shows "wellNamed (snd (rangeLoop tm ts (m, idx)))"
proof -
  have "GetHostname (snd (tm f hs)) = GetHostname hs" for f hs
    using assms(1) unfolding acquires_def by blast
  with assms(2) show ?thesis
    unfolding rangeLoop_index [OF assms(1)] wellNamed_def by (auto split: if_splits)
qed

lemma rangeLoop_eligible:
  assumes "acquires tm"
  shows "eligible tm (m_hostFilter m) (snd (rangeLoop tm ts (m, idx))) x
         \<longleftrightarrow> eligible tm (m_hostFilter m) idx x
             \<and> x \<notin> set (capped (room m) (filter (eligible tm (m_hostFilter m) idx) (firsts ts)))"
proof -
  let ?f = "m_hostFilter m"
  let ?A = "capped (room m) (filter (eligible tm ?f idx) (firsts ts))"
  have in_A: "eligible tm ?f idx y" if "y \<in> set ?A" for y
  proof -
    have "set ?A \<subseteq> set (filter (eligible tm ?f idx) (firsts ts))"
      by (cases "room m") (auto simp add: capped_def dest: in_set_takeD)
    with that show ?thesis by auto
  qed
  show ?thesis
  proof (cases "x \<in> set ?A")
    case True
    then obtain hs where hs: "idx x = Some hs" "fst (tm ?f hs) = Matched"
      using in_A [OF True] by (auto simp add: eligible_def split: option.splits)
    have "fst (tm ?f (snd (tm ?f hs))) \<noteq> Matched"
      using assms hs(2) unfolding acquires_def by (metis (full_types))
    with True hs show ?thesis
      by (simp add: rangeLoop_index [OF assms] eligible_def)
  next
    case False
    then show ?thesis by (simp add: rangeLoop_index [OF assms] eligible_def)
  qed
qed

subsection \<open>The leases\<close>

lemma leaseLoop_returns:
  assumes "set names \<subseteq> dom idx"
  shows "leaseLoop idx names = Returned (map (\<lambda>name. GetHostLease (the (idx name))) names)"
  using assms by (induction names) auto

lemma lease_hostnames:
  assumes "wellNamed idx" and "set names \<subseteq> dom idx"
  shows "map lease_hostname (map (\<lambda>name. GetHostLease (the (idx name))) names) = names"
proof -
  have "lease_hostname (GetHostLease (the (idx name))) = name" if "name \<in> set names" for name
  proof -
    from that assms(2) obtain hs where "idx name = Some hs" by auto
    with assms(1) show ?thesis by (simp add: wellNamed_def GetHostLease_def GetHostname_def)
  qed
  then show ?thesis by (simp add: map_idI)
qed

subsection \<open>The two loops in a row\<close>

lemma firsts_filter: "firsts (filter P xs) = filter P (firsts xs)"
proof (induction xs)
  case Nil
  show ?case by simp
next
  case (Cons x xs)
  show ?case
  proof (cases "P x")
    case True
    have "filter (\<lambda>y. y \<noteq> x) (filter P (firsts xs)) = filter P (filter (\<lambda>y. y \<noteq> x) (firsts xs))"
      by (auto intro: filter_cong)
    with True Cons show ?thesis by simp
  next
    case False
    have "filter P (filter (\<lambda>y. y \<noteq> x) (firsts xs)) = filter P (firsts xs)"
      using False by (auto intro: filter_cong)
    with False Cons show ?thesis by simp
  qed
qed

lemma tried_full_any: "tried (Some 0) el ps = tried (Some 0) el' ps"
  by (cases ps) simp_all

lemma set_capped: "set (capped cap xs) \<subseteq> set xs"
  by (cases cap) (auto simp add: capped_def dest: in_set_takeD)

lemma length_capped_reached:
  "capReached cap (length (capped cap xs)) \<Longrightarrow> Some (length (capped cap xs)) = cap"
  by (cases cap) (auto simp add: capReached_def capped_def)

lemma length_capped_not_reached:
  "\<not> capReached cap (length (capped cap xs)) \<Longrightarrow> capped cap xs = xs"
  by (cases cap) (auto simp add: capReached_def capped_def)

text \<open>
  The matches of the two loops, put together: the second loop starts with the room that
  the first has left and finds the hosts that the first has matched no longer eligible.
\<close>

lemma capped_two_loops:
  assumes "\<And>x. el x \<Longrightarrow> (x \<in> set A \<longleftrightarrow> x \<in> set H)"
  shows "capped cap A
         @ capped (map_option (\<lambda>n. n - length (capped cap A)) cap)
             (filter (\<lambda>x. el x \<and> x \<notin> set (capped cap A)) order)
         = capped cap (A @ filter (\<lambda>x. el x \<and> x \<notin> set H) order)"
proof (cases cap)
  case None
  have "filter (\<lambda>x. el x \<and> x \<notin> set A) order = filter (\<lambda>x. el x \<and> x \<notin> set H) order"
    using assms by (auto intro: filter_cong)
  with None show ?thesis by (simp add: capped_def)
next
  case (Some n)
  show ?thesis
  proof (cases "n \<le> length A")
    case True
    with Some show ?thesis by (simp add: capped_def)
  next
    case False
    have "filter (\<lambda>x. el x \<and> x \<notin> set A) order = filter (\<lambda>x. el x \<and> x \<notin> set H) order"
      using assms by (auto intro: filter_cong)
    with Some False show ?thesis by (simp add: capped_def)
  qed
qed

lemma tried_second_loop:
  assumes "\<And>x. el x \<Longrightarrow> (x \<in> set A \<longleftrightarrow> x \<in> set H)"
  shows "tried (map_option (\<lambda>n. n - length (capped cap A)) cap)
           (\<lambda>x. el x \<and> x \<notin> set (capped cap A)) ps
         = tried (map_option (\<lambda>n. n - length A) cap) (\<lambda>x. el x \<and> x \<notin> set H) ps"
proof -
  have e: "(\<lambda>x. el x \<and> x \<notin> set A) = (\<lambda>x. el x \<and> x \<notin> set H)"
    using assms by auto
  show ?thesis
  proof (cases cap)
    case None
    then show ?thesis by simp
  next
    case (Some n)
    show ?thesis
    proof (cases "n \<le> length A")
      case True
      with Some show ?thesis by (simp add: capped_def tried_full_any [of _ ps])
    next
      case False
      with Some e show ?thesis by (simp add: capped_def)
    qed
  qed
qed

lemma hintHosts_set:
  "eligible tm f idx x \<Longrightarrow> (x \<in> set (hintHosts tm f idx) \<longleftrightarrow> x \<in> set (hint f))"
  by (simp add: hintHosts_def)

lemma NewMatcher_fields [simp]:
  "m_hostFilter (NewMatcher f) = f" "hostNames (NewMatcher f) = []"
  "filterCounts (NewMatcher f) = Map.empty" "host_limit (NewMatcher f) = max_hosts f"
  by (simp_all add: NewMatcher_def)

text \<open>What the matcher holds after the two loops, in a well-named index.\<close>

lemma runMatcher_result:
  assumes "acquires tm" and "wellNamed (hostIndex c)" and "distinct order"
  shows "hostNames (fst (runMatcher tm order f c)) = matchedHosts tm f (hostIndex c) order"
    and "sumCounts (filterCounts (fst (runMatcher tm order f c)))
           + length (hostNames (fst (runMatcher tm order f c)))
         = length (hintTries tm f (hostIndex c)) + length (rangeTries tm f (hostIndex c) order)"
    and "dom (snd (runMatcher tm order f c)) = dom (hostIndex c)"
    and "wellNamed (snd (runMatcher tm order f c))"
proof -
  let ?idx = "hostIndex c"
  let ?el = "eligible tm f ?idx"
  let ?A = "hintHosts tm f ?idx"
  let ?l1 = "rangeLoop tm (hint f) (NewMatcher f, ?idx)"
  obtain m1 idx1 where l1: "?l1 = (m1, idx1)" by (cases ?l1)
  have run: "runMatcher tm order f c = rangeLoop tm order (m1, idx1)"
    by (simp add: runMatcher_def hintLoop_wellNamed [OF assms(1,2)] l1)
  have n1: "hostNames m1 = capped (max_hosts f) ?A"
    and f1: "m_hostFilter m1 = f" and h1: "host_limit m1 = max_hosts f"
    using rangeLoop_names [OF assms(1), of "hint f" "NewMatcher f" ?idx]
    by (simp_all add: l1 hintHosts_def)
  have r1: "room m1 = map_option (\<lambda>n. n - length (capped (max_hosts f) ?A)) (max_hosts f)"
    by (simp add: room_def h1 n1)
  have d1: "dom idx1 = dom ?idx"
    using rangeLoop_dom [OF assms(1), of "hint f" "NewMatcher f" ?idx] by (simp add: l1)
  have w1: "wellNamed idx1"
    using rangeLoop_wellNamed [OF assms(1,2), of "hint f" "NewMatcher f"] by (simp add: l1)
  have e1: "eligible tm f idx1 = (\<lambda>x. ?el x \<and> x \<notin> set (capped (max_hosts f) ?A))"
  proof
    fix x
    show "eligible tm f idx1 x = (?el x \<and> x \<notin> set (capped (max_hosts f) ?A))"
      using rangeLoop_eligible [OF assms(1), of "NewMatcher f" "hint f" ?idx x]
      by (simp add: l1 hintHosts_def)
  qed
  have p1: "present idx1 ts = present ?idx ts" for ts
  proof -
    have "(idx1 x \<noteq> None) = (?idx x \<noteq> None)" for x
      using d1 by (auto simp add: dom_def)
    then show ?thesis by (simp add: present_def)
  qed
  have c1: "finite (dom (filterCounts m1))"
    and s1: "sumCounts (filterCounts m1) + length (hostNames m1) = length (hintTries tm f ?idx)"
    using rangeLoop_counts [OF assms(1), of "NewMatcher f" "hint f" ?idx]
    by (simp_all add: l1 hintTries_def)
  have sets: "\<And>x. ?el x \<Longrightarrow> (x \<in> set ?A \<longleftrightarrow> x \<in> set (hint f))"
    by (rule hintHosts_set)
  show "hostNames (fst (runMatcher tm order f c)) = matchedHosts tm f ?idx order"
    using rangeLoop_names [OF assms(1), of order m1 idx1]
      capped_two_loops [of ?el ?A "hint f" "max_hosts f" order, OF sets]
    by (simp add: run n1 f1 r1 e1 firsts_distinct [OF assms(3)] matchedHosts_def
        remainingHosts_def)
  show "sumCounts (filterCounts (fst (runMatcher tm order f c)))
           + length (hostNames (fst (runMatcher tm order f c)))
         = length (hintTries tm f ?idx) + length (rangeTries tm f ?idx order)"
    using rangeLoop_counts [OF assms(1) c1, of order idx1] s1
      tried_second_loop [of ?el ?A "hint f" "max_hosts f" "present ?idx order", OF sets]
    by (simp add: run f1 r1 e1 p1 rangeTries_def)
  show "dom (snd (runMatcher tm order f c)) = dom ?idx"
    using rangeLoop_dom [OF assms(1), of order m1 idx1] by (simp add: run d1)
  show "wellNamed (snd (runMatcher tm order f c))"
    unfolding run using assms(1) w1 by (rule rangeLoop_wellNamed)
qed

lemma matchedHosts_in_index: "set (matchedHosts tm f idx order) \<subseteq> dom idx"
proof -
  have "set (matchedHosts tm f idx order) \<subseteq> {x. eligible tm f idx x}"
    using set_capped [of "max_hosts f" "hintHosts tm f idx @ remainingHosts tm f idx order"]
    by (auto simp add: matchedHosts_def hintHosts_def remainingHosts_def)
  then show ?thesis using eligible_present [of tm f idx] by auto
qed

lemma AcquireLeases_returns:
  assumes "acquires tm" and "wellNamed (hostIndex c)" and "distinct order"
  shows "AcquireLeases tm order f c =
           Returned
             (map (\<lambda>name. GetHostLease (the (snd (runMatcher tm order f c) name)))
                (matchedHosts tm f (hostIndex c) order),
              filterCounts (fst (runMatcher tm order f c)),
              c\<lparr>hostIndex := snd (runMatcher tm order f c)\<rparr>)"
proof -
  obtain m2 idx2 where r: "runMatcher tm order f c = (m2, idx2)"
    by (cases "runMatcher tm order f c")
  have n: "hostNames m2 = matchedHosts tm f (hostIndex c) order"
    using runMatcher_result(1) [OF assms, of f] by (simp add: r)
  have "dom idx2 = dom (hostIndex c)"
    using runMatcher_result(3) [OF assms, of f] by (simp add: r)
  with matchedHosts_in_index [of tm f "hostIndex c" order]
  have "set (matchedHosts tm f (hostIndex c) order) \<subseteq> dom idx2" by simp
  then have "leaseLoop idx2 (matchedHosts tm f (hostIndex c) order)
             = Returned (map (\<lambda>name. GetHostLease (the (idx2 name)))
                          (matchedHosts tm f (hostIndex c) order))"
    by (rule leaseLoop_returns)
  then show ?thesis by (simp add: AcquireLeases_def r n)
qed

subsection \<open>The try of the specification\<close>

lemma acquires_matchAndAcquire: "acquires (matchAndAcquire now lease_ttl mint)"
  unfolding acquires_def
proof (intro allI conjI)
  fix hostFilter :: "'a HostFilter" and hs :: "'a HostSummary"
  show "GetHostname (snd (matchAndAcquire now lease_ttl mint hostFilter hs)) = GetHostname hs"
    by (simp add: matchAndAcquire_def AcquireLease_def GetHostname_def split: MatchResult.splits)
  show "if fst (matchAndAcquire now lease_ttl mint hostFilter hs) = Matched
        then fst (matchAndAcquire now lease_ttl mint hostFilter
                   (snd (matchAndAcquire now lease_ttl mint hostFilter hs))) \<noteq> Matched
        else snd (matchAndAcquire now lease_ttl mint hostFilter hs) = hs"
    by (cases "TryMatch hostFilter hs")
      (simp_all add: matchAndAcquire_def AcquireLease_def TryMatch_def)
qed

lemma acquires_tryAt0: "acquires tryAt0"
  unfolding tryAt0_def by (rule acquires_matchAndAcquire)

lemma hostsAB_index:
  "hostIndex hostsAB =
     [''a'' \<mapsto> newKubeletHostSummary ''a'' (Some cap1) ''1'',
      ''b'' \<mapsto> newKubeletHostSummary ''b'' (Some cap2) ''1'']"
  by (simp add: hostsAB_def handleHostEvent_def addHost_def hostEvent_def New_def Let_def)

lemma smallHost_index:
  "hostIndex smallHost = [''h1'' \<mapsto> newKubeletHostSummary ''h1'' (Some cap2) ''1'']"
  by (simp add: smallHost_def handleHostEvent_def addHost_def hostEvent_def New_def Let_def)

text \<open>The host events file every summary under its own hostname.\<close>

lemma wellNamed_New: "wellNamed (hostIndex New)"
  by (simp add: wellNamed_def New_def)

lemma handleHostEvent_wellNamed:
  assumes "wellNamed (hostIndex c)"
  shows "wellNamed (hostIndex (handleHostEvent event c))"
  using assms
  by (cases "eventType event")
    (auto simp add: wellNamed_def handleHostEvent_def addHost_def updateHostSpec_def
      deleteHost_def updateHostAvailable_def Let_def newKubeletHostSummary_def
      newMesosHostSummary_def GetHostname_def SetVersion_def SetCapacity_def SetAvailable_def
      split: option.splits if_splits)

lemma wellNamed_hostsAB: "wellNamed (hostIndex hostsAB)"
  by (auto simp add: wellNamed_def hostsAB_index newKubeletHostSummary_def GetHostname_def
      split: if_splits)

lemma wellNamed_smallHost: "wellNamed (hostIndex smallHost)"
  by (auto simp add: wellNamed_def smallHost_index newKubeletHostSummary_def GetHostname_def
      split: if_splits)

lemma eligible_hostsAB:
  "eligible tryAt0 anyOneHost (hostIndex hostsAB) x \<longleftrightarrow> x = ''a'' \<or> x = ''b''"
  "eligible tryAt0 hintB (hostIndex hostsAB) x \<longleftrightarrow> x = ''a'' \<or> x = ''b''"
  "eligible tryAt0 hintBOneHost (hostIndex hostsAB) x \<longleftrightarrow> x = ''a'' \<or> x = ''b''"
  by (auto simp add: eligible_def hostsAB_index tryAt0_def matchAndAcquire_def TryMatch_def
      Contains_def newKubeletHostSummary_def FromPelotonResources_def cap1_def cap2_def
      anyOneHost_def hintB_def hintBOneHost_def zeroResources_def split: if_splits)

lemma filter_fields:
  "hint anyOneHost = []" "max_hosts anyOneHost = Some 1"
  "hint hintB = [''b'']" "max_hosts hintB = None"
  "hint hintBOneHost = [''b'']" "max_hosts hintBOneHost = Some 1"
  "hint fourCores = [''h1'']" "max_hosts fourCores = Some 5"
  by (simp_all add: anyOneHost_def hintB_def hintBOneHost_def fourCores_def)

lemma AcquireLeases_hostnames:
  assumes "acquires tm" and "wellNamed (hostIndex c)" and "distinct order"
  shows "\<exists>leases counts c'.
           AcquireLeases tm order hostFilter c = Returned (leases, counts, c')
           \<and> map lease_hostname leases = matchedHosts tm hostFilter (hostIndex c) order"
proof -
  let ?idx2 = "snd (runMatcher tm order hostFilter c)"
  let ?names = "matchedHosts tm hostFilter (hostIndex c) order"
  have "dom ?idx2 = dom (hostIndex c)"
    using assms by (rule runMatcher_result(3))
  with matchedHosts_in_index [of tm hostFilter "hostIndex c" order]
  have "set ?names \<subseteq> dom ?idx2" by simp
  with runMatcher_result(4) [OF assms, of hostFilter]
  have "map lease_hostname (map (\<lambda>name. GetHostLease (the (?idx2 name))) ?names) = ?names"
    by (rule lease_hostnames)
  with AcquireLeases_returns [OF assms, of hostFilter] show ?thesis by blast
qed

subsection \<open>The order of the matched hosts\<close>

text \<open>
  C4 (amended). With every summary filed under its own hostname, a try that
  acquires the host it matches, and the hosts of the index visited in the order
  \<open>order\<close>, \<^verbatim>\<open>AcquireLeases\<close> returns, and the hostnames of its leases are, in this
  order: the hosts of the hint list that match, in hint order, then the hosts of the
  index that match and that the hint list does not name, in the order of the visit; the
  whole is cut at the cap, if the filter has one. The result is a function of the index,
  the filter and the order of the visit.
\<close>

theorem AcquireLeases_matched_hosts:
  assumes "acquires tm" and "wellNamed (hostIndex c)" and "distinct order"
  shows "\<exists>leases counts c'.
           AcquireLeases tm order hostFilter c = Returned (leases, counts, c')
           \<and> map lease_hostname leases =
               capped (max_hosts hostFilter)
                 (filter (eligible tm hostFilter (hostIndex c)) (firsts (hint hostFilter))
                  @ filter (\<lambda>name. eligible tm hostFilter (hostIndex c) name
                                   \<and> name \<notin> set (hint hostFilter)) order)"
  using AcquireLeases_hostnames [OF assms, of hostFilter]
  by (simp add: matchedHosts_def hintHosts_def remainingHosts_def)

text \<open>
  The hosts \<open>a\<close> and \<open>b\<close>, visited as \<open>a, b\<close>, with a hint at \<open>b\<close> and no cap: the
  leases are on \<open>b\<close>, then on \<open>a\<close>.
\<close>

theorem AcquireLeases_matched_hosts_witness:
  "acquires tryAt0 \<and> wellNamed (hostIndex hostsAB) \<and> distinct [''a'', ''b'']
   \<and> set [''a'', ''b''] = dom (hostIndex hostsAB)
   \<and> (\<exists>leases counts c'.
         AcquireLeases tryAt0 [''a'', ''b''] hintB hostsAB = Returned (leases, counts, c')
         \<and> map lease_hostname leases = [''b'', ''a''])"
proof -
  have d: "distinct [''a'', ''b'']" by simp
  have s: "set [''a'', ''b''] = dom (hostIndex hostsAB)"
    by (auto simp add: hostsAB_index)
  have m: "capped (max_hosts hintB)
             (filter (eligible tryAt0 hintB (hostIndex hostsAB)) (firsts (hint hintB))
              @ filter (\<lambda>name. eligible tryAt0 hintB (hostIndex hostsAB) name
                               \<and> name \<notin> set (hint hintB)) [''a'', ''b''])
           = [''b'', ''a'']"
    by (simp add: filter_fields eligible_hostsAB capped_def)
  from AcquireLeases_matched_hosts [OF acquires_tryAt0 wellNamed_hostsAB d, of hintB]
    acquires_tryAt0 wellNamed_hostsAB d s
  show ?thesis unfolding m by blast
qed

text \<open>
  C4 as the specification words it, refuted: the hosts after the hints do not come
  in sorted order, and two calls on the same index do not give the same hosts. With the
  hosts \<open>a\<close> and \<open>b\<close>, no hint and a cap of one host, the lease is on \<open>a\<close> when the
  map is visited as \<open>a, b\<close> and on \<open>b\<close> when it is visited as \<open>b, a\<close>.
\<close>

theorem AcquireLeases_order_counterexample:
  "distinct [''a'', ''b''] \<and> set [''a'', ''b''] = dom (hostIndex hostsAB)
   \<and> distinct [''b'', ''a''] \<and> set [''b'', ''a''] = dom (hostIndex hostsAB)
   \<and> (\<exists>leases counts c'.
         AcquireLeases tryAt0 [''a'', ''b''] anyOneHost hostsAB = Returned (leases, counts, c')
         \<and> map lease_hostname leases = [''a''])
   \<and> (\<exists>leases counts c'.
         AcquireLeases tryAt0 [''b'', ''a''] anyOneHost hostsAB = Returned (leases, counts, c')
         \<and> map lease_hostname leases = [''b''])"
proof -
  have s: "set [''a'', ''b''] = dom (hostIndex hostsAB)"
    "set [''b'', ''a''] = dom (hostIndex hostsAB)"
    by (auto simp add: hostsAB_index)
  have ab: "matchedHosts tryAt0 anyOneHost (hostIndex hostsAB) [''a'', ''b''] = [''a'']"
    by (simp add: matchedHosts_def hintHosts_def remainingHosts_def filter_fields
        eligible_hostsAB capped_def)
  have ba: "matchedHosts tryAt0 anyOneHost (hostIndex hostsAB) [''b'', ''a''] = [''b'']"
    by (simp add: matchedHosts_def hintHosts_def remainingHosts_def filter_fields
        eligible_hostsAB capped_def)
  have d: "distinct [''a'', ''b'']" "distinct [''b'', ''a'']" by simp_all
  from AcquireLeases_hostnames [OF acquires_tryAt0 wellNamed_hostsAB d(1), of anyOneHost]
    AcquireLeases_hostnames [OF acquires_tryAt0 wellNamed_hostsAB d(2), of anyOneHost]
    s d
  show ?thesis unfolding ab ba by blast
qed

subsection \<open>The counts of the filter results\<close>

lemma AcquireLeases_tries:
  assumes "acquires tm" and "wellNamed (hostIndex c)" and "distinct order"
  shows "\<exists>leases counts c'.
           AcquireLeases tm order hostFilter c = Returned (leases, counts, c')
           \<and> length leases = length (matchedHosts tm hostFilter (hostIndex c) order)
           \<and> sumCounts counts + length leases
               = length (hintTries tm hostFilter (hostIndex c))
                 + length (rangeTries tm hostFilter (hostIndex c) order)"
  using AcquireLeases_returns [OF assms, of hostFilter]
    runMatcher_result(1,2) [OF assms, of hostFilter]
  by simp

lemma present_all: "set order = dom idx \<Longrightarrow> present idx order = order"
  by (auto simp add: present_def filter_id_conv)

lemma tries_when_cap_not_reached:
  assumes "distinct order" and "set order = dom idx"
    and "\<not> capReached (max_hosts f) (length (matchedHosts tm f idx order))"
  shows "length (hintTries tm f idx) + length (rangeTries tm f idx order)
         = length (present idx (hint f)) + card (dom idx)"
proof -
  let ?el = "eligible tm f idx"
  let ?A = "hintHosts tm f idx"
  let ?R = "remainingHosts tm f idx order"
  have whole: "matchedHosts tm f idx order = ?A @ ?R"
    using assms(3) unfolding matchedHosts_def by (rule length_capped_not_reached)
  have c: "length order = card (dom idx)"
    using assms(1,2) by (metis distinct_card)
  have fa: "filter ?el (firsts (present idx (hint f))) = ?A"
  proof -
    have "filter ?el (filter (\<lambda>name. idx name \<noteq> None) (firsts (hint f)))
          = filter ?el (firsts (hint f))"
      using eligible_present [of tm f idx] by (auto intro: filter_cong)
    then show ?thesis by (simp add: present_def firsts_filter hintHosts_def)
  qed
  show ?thesis
  proof (cases "max_hosts f")
    case None
    then show ?thesis
      by (simp add: hintTries_def rangeTries_def present_all [OF assms(2)] c)
  next
    case (Some n)
    with assms(3) whole have less: "length ?A + length ?R < n"
      by (simp add: capReached_def)
    have "length (filter ?el (firsts (present idx (hint f)))) < n"
      using less by (simp add: fa)
    then have h: "tried (Some n) ?el (present idx (hint f)) = present idx (hint f)"
      by (rule tried_all)
    have "length (filter (\<lambda>name. ?el name \<and> name \<notin> set (hint f)) (firsts order))
          < n - length ?A"
      using less by (simp add: firsts_distinct [OF assms(1)] remainingHosts_def)
    then have "tried (Some (n - length ?A)) (\<lambda>name. ?el name \<and> name \<notin> set (hint f)) order
               = order"
      by (rule tried_all)
    with h Some show ?thesis
      by (simp add: hintTries_def rangeTries_def present_all [OF assms(2)] c)
  qed
qed

text \<open>
  C5 (amended). With every summary filed under its own hostname, a try that
  acquires the host it matches, and the hosts of the index visited once each in the
  order \<open>order\<close>, \<^verbatim>\<open>AcquireLeases\<close> returns, and the sum of the values of the
  returned counts plus the number of leases is the number of tries of the two loops:
  those of the loop over the hints and those of the loop over the index. When the cap is
  reached, the leases number what the cap says. When it is not, every hinted host of
  the index has been tried once in the first loop and every host of the index once in
  the second, so that the total is the number of hosts of the index plus the number of
  entries of the hint list that name one.
\<close>

theorem filterCounts_count_the_tries:
  assumes "acquires tm" and "wellNamed (hostIndex c)"
    and "distinct order" and "set order = dom (hostIndex c)"
  shows "\<exists>leases counts c'.
           AcquireLeases tm order hostFilter c = Returned (leases, counts, c')
           \<and> sumCounts counts + length leases
               = length (hintTries tm hostFilter (hostIndex c))
                 + length (rangeTries tm hostFilter (hostIndex c) order)
           \<and> (if capReached (max_hosts hostFilter) (length leases)
              then Some (length leases) = max_hosts hostFilter
              else sumCounts counts + length leases
                   = length (present (hostIndex c) (hint hostFilter))
                     + card (dom (hostIndex c)))"
proof -
  let ?idx = "hostIndex c"
  let ?names = "matchedHosts tm hostFilter ?idx order"
  obtain leases counts c' where
    r: "AcquireLeases tm order hostFilter c = Returned (leases, counts, c')"
    and l: "length leases = length ?names"
    and t: "sumCounts counts + length leases
            = length (hintTries tm hostFilter ?idx) + length (rangeTries tm hostFilter ?idx order)"
    using AcquireLeases_tries [OF assms(1,2,3), of hostFilter] by blast
  have "Some (length leases) = max_hosts hostFilter"
    if "capReached (max_hosts hostFilter) (length leases)"
    using that unfolding l matchedHosts_def by (rule length_capped_reached)
  moreover have "sumCounts counts + length leases
                 = length (present ?idx (hint hostFilter)) + card (dom ?idx)"
    if "\<not> capReached (max_hosts hostFilter) (length leases)"
    using tries_when_cap_not_reached [OF assms(3,4), of hostFilter tm] that t l by simp
  ultimately show ?thesis using r t by auto
qed

text \<open>
  The hosts \<open>a\<close> and \<open>b\<close>, visited as \<open>a, b\<close>, with a hint at \<open>b\<close> and a cap of one
  host. The loop over the hints tries \<open>b\<close>, which matches and reaches the cap; the loop
  over the index tries \<open>a\<close>, which is tallied \<^verbatim>\<open>MATCH_MAX_HOST_LIMIT\<close>, and stops.
  There is one lease, on \<open>b\<close>, and one count.
\<close>

lemma AcquireLeases_hintBOneHost:
  "AcquireLeases tryAt0 [''a'', ''b''] hintBOneHost hostsAB =
     Returned
       ([\<lparr>lease_hostname = ''b'', lease_id = Some ''lease-b'',
          offered = FromPelotonResources (Some cap2), expires_at = 120\<rparr>],
        [''MATCH_MAX_HOST_LIMIT'' \<mapsto> 1],
        hostsAB\<lparr>hostIndex := (hostIndex hostsAB)
          (''b'' \<mapsto> AcquireLease 0 120 ''lease-b''
                       (newKubeletHostSummary ''b'' (Some cap2) ''1''))\<rparr>)"
  by (simp add: AcquireLeases_def runMatcher_def hostsAB_index tryMatch_def
      hostLimitReached_def NewMatcher_def tryAt0_def matchAndAcquire_def TryMatch_def
      Contains_def AcquireLease_def GetHostLease_def GetHostname_def increment_def
      newKubeletHostSummary_def FromPelotonResources_def cap1_def cap2_def
      hintBOneHost_def zeroResources_def fun_upd_twist)

theorem filterCounts_count_the_tries_witness:
  "acquires tryAt0 \<and> wellNamed (hostIndex hostsAB)
   \<and> distinct [''a'', ''b''] \<and> set [''a'', ''b''] = dom (hostIndex hostsAB)
   \<and> hintTries tryAt0 hintBOneHost (hostIndex hostsAB) = [''b'']
   \<and> rangeTries tryAt0 hintBOneHost (hostIndex hostsAB) [''a'', ''b''] = [''a'']
   \<and> (\<exists>leases counts c'.
        AcquireLeases tryAt0 [''a'', ''b''] hintBOneHost hostsAB = Returned (leases, counts, c')
        \<and> map lease_hostname leases = [''b'']
        \<and> counts = [''MATCH_MAX_HOST_LIMIT'' \<mapsto> 1]
        \<and> sumCounts counts + length leases = 2
        \<and> capReached (max_hosts hintBOneHost) (length leases)
        \<and> Some (length leases) = max_hosts hintBOneHost)"
proof -
  have d: "distinct [''a'', ''b'']" by simp
  have s: "set [''a'', ''b''] = dom (hostIndex hostsAB)"
    by (auto simp add: hostsAB_index)
  have p: "present (hostIndex hostsAB) [''b''] = [''b'']"
    "present (hostIndex hostsAB) [''a'', ''b''] = [''a'', ''b'']"
    by (simp_all add: present_def hostsAB_index)
  have h: "hintTries tryAt0 hintBOneHost (hostIndex hostsAB) = [''b'']"
    by (simp add: hintTries_def filter_fields p eligible_hostsAB)
  have r: "rangeTries tryAt0 hintBOneHost (hostIndex hostsAB) [''a'', ''b''] = [''a'']"
    by (simp add: rangeTries_def hintHosts_def filter_fields p eligible_hostsAB)
  from filterCounts_count_the_tries [OF acquires_tryAt0 wellNamed_hostsAB d s, of hintBOneHost]
  obtain leases counts c' where
    a: "AcquireLeases tryAt0 [''a'', ''b''] hintBOneHost hostsAB = Returned (leases, counts, c')"
    and t: "sumCounts counts + length leases
            = length (hintTries tryAt0 hintBOneHost (hostIndex hostsAB))
              + length (rangeTries tryAt0 hintBOneHost (hostIndex hostsAB) [''a'', ''b''])"
    by blast
  from a have l: "map lease_hostname leases = [''b'']"
    and c: "counts = [''MATCH_MAX_HOST_LIMIT'' \<mapsto> 1]"
    by (auto simp add: AcquireLeases_hintBOneHost)
  from l have n: "length leases = 1" by (metis length_map length_Cons list.size(3) One_nat_def)
  have t': "sumCounts counts + length leases = 2" using t by (simp add: h r)
  have k: "capReached (max_hosts hintBOneHost) (length leases)"
    "Some (length leases) = max_hosts hintBOneHost"
    by (simp_all add: capReached_def filter_fields n)
  from a l c t' k have
    "\<exists>leases counts c'.
        AcquireLeases tryAt0 [''a'', ''b''] hintBOneHost hostsAB = Returned (leases, counts, c')
        \<and> map lease_hostname leases = [''b'']
        \<and> counts = [''MATCH_MAX_HOST_LIMIT'' \<mapsto> 1]
        \<and> sumCounts counts + length leases = 2
        \<and> capReached (max_hosts hintBOneHost) (length leases)
        \<and> Some (length leases) = max_hosts hintBOneHost"
    by - (intro exI [of _ leases] exI [of _ counts] exI [of _ c'] conjI; assumption)
  with acquires_tryAt0 wellNamed_hostsAB d s h r show ?thesis
    by - (intro conjI; assumption)
qed

text \<open>
  C5 as the specification words it, refuted. The index has the one host \<open>h1\<close>,
  with two cores; the filter asks for four cores, hints at \<open>h1\<close> and takes up to five
  hosts. The host is tried by the loop over the hints and again by the loop over the
  index: the counts are \<^verbatim>\<open>INSUFFICIENT_RESOURCES: 2\<close>, whose sum is neither the
  number of hosts of the index, which is 1, nor at least the cap, which is 5 and is not
  reached.
\<close>

theorem filterCounts_sum_counterexample:
  "AcquireLeases tryAt0 [''h1''] fourCores smallHost
     = Returned ([], [''INSUFFICIENT_RESOURCES'' \<mapsto> 2], smallHost)
   \<and> sumCounts [''INSUFFICIENT_RESOURCES'' \<mapsto> 2] = 2
   \<and> card (dom (hostIndex smallHost)) = 1
   \<and> max_hosts fourCores = Some 5"
proof -
  have i: "smallHost\<lparr>hostIndex := hostIndex smallHost\<rparr> = smallHost" by simp
  have a: "AcquireLeases tryAt0 [''h1''] fourCores smallHost
             = Returned ([], [''INSUFFICIENT_RESOURCES'' \<mapsto> 2],
                         smallHost\<lparr>hostIndex := hostIndex smallHost\<rparr>)"
    by (simp add: AcquireLeases_def runMatcher_def smallHost_index tryMatch_def
        hostLimitReached_def NewMatcher_def tryAt0_def matchAndAcquire_def TryMatch_def
        Contains_def GetHostname_def increment_def newKubeletHostSummary_def
        FromPelotonResources_def cap2_def fourCores_def numeral_2_eq_2)
  have b: "sumCounts [''INSUFFICIENT_RESOURCES'' \<mapsto> 2] = 2"
    by (simp add: sumCounts_def)
  have c: "card (dom (hostIndex smallHost)) = 1"
    by (simp add: smallHost_index)
  from a have a': "AcquireLeases tryAt0 [''h1''] fourCores smallHost
             = Returned ([], [''INSUFFICIENT_RESOURCES'' \<mapsto> 2], smallHost)"
    by (simp only: i)
  from a' b c filter_fields(8) show ?thesis
    by - (intro conjI; assumption)
qed

section \<open>Agreement of the held-pod index with the holds\<close>

text \<open>
  A new cache has no hold and no entry. In a state of a cache made by \<^verbatim>\<open>New\<close> the
  index of held pods is \<^verbatim>\<open>nil\<close>, so the index and the holds agree there exactly when
  no host holds a pod.
\<close>

lemma holdsAgree_New: "holdsAgree New"
  by (simp add: holdsAgree_def heldIndex_def New_def)

lemma reachable_heldIndex: "reachable c \<Longrightarrow> heldIndex c = Map.empty"
  by (simp add: heldIndex_def reachable_nil_index)

lemma reachable_holdsAgree_iff:
  assumes "reachable c"
  shows "holdsAgree c \<longleftrightarrow> (\<forall>h hs. hostIndex c h = Some hs \<longrightarrow> hs_holds hs = Map.empty)"
proof
  assume a: "holdsAgree c"
  show "\<forall>h hs. hostIndex c h = Some hs \<longrightarrow> hs_holds hs = Map.empty"
  proof (intro allI impI)
    fix h hs
    assume h: "hostIndex c h = Some hs"
    have "p \<notin> dom (hs_holds hs)" for p
    proof
      assume "p \<in> dom (hs_holds hs)"
      with a h have "heldIndex c p = Some h" unfolding holdsAgree_def by blast
      then show False by (simp add: reachable_heldIndex [OF assms])
    qed
    then show "hs_holds hs = Map.empty" by auto
  qed
next
  assume "\<forall>h hs. hostIndex c h = Some hs \<longrightarrow> hs_holds hs = Map.empty"
  then show "holdsAgree c"
    by (auto simp add: holdsAgree_def reachable_heldIndex [OF assms])
qed

lemma hold_without_entry:
  assumes "hostIndex c h = Some hs" and "p \<in> dom (hs_holds hs)" and "podHeldIndex c = None"
  shows "\<not> holdsAgree c"
proof
  assume "holdsAgree c"
  with assms(1,2) have "heldIndex c p = Some h" unfolding holdsAgree_def by blast
  then show False by (simp add: heldIndex_def assms(3))
qed

lemma handleHostEvent_other_host:
  assumes "hostname (hostInfo event) \<noteq> name"
  shows "hostIndex (handleHostEvent event c) name = hostIndex c name"
  using assms
  by (cases "eventType event")
    (auto simp add: handleHostEvent_def addHost_def updateHostSpec_def deleteHost_def
      updateHostAvailable_def Let_def split: option.splits)

text \<open>
  C1, at the states of a cache made by \<^verbatim>\<open>New\<close>. In every such state, a call
  of \<^verbatim>\<open>HoldForPods\<close> on a host of the index in which the hold of some pod succeeds,
  with a \<^verbatim>\<open>HoldForPod\<close> that puts the pod into the holds of the summary, panics after
  the summary has taken the hold and before anything is entered in \<^verbatim>\<open>podHeldIndex\<close>.
  The state it leaves has a hold without an entry, and so has the state after the next
  event, here a host event for another host, when the caller has recovered the panic:
  that state follows a completed event, and the index and the holds do not agree in it.
\<close>

theorem hold_is_left_without_entry:
  assumes "reachable c" and "hostIndex c name = Some hs"
    and "keepsHolds hold" and "holdSucceeded hold podIDs hs \<noteq> []"
    and "hostname (hostInfo event) \<noteq> name"
  shows "\<exists>c'. HoldForPods hold name podIDs c = Panic c'
              \<and> \<not> holdsAgree c'
              \<and> reachable (handleHostEvent event c')
              \<and> \<not> holdsAgree (handleHostEvent event c')"
proof -
  let ?hs = "heldAtFirst hold podIDs hs"
  let ?c = "c\<lparr>hostIndex := (hostIndex c)(name \<mapsto> ?hs)\<rparr>"
  have n: "podHeldIndex c = None" using assms(1) by (rule reachable_nil_index)
  have p: "HoldForPods hold name podIDs c = Panic ?c"
    using assms(2) n assms(4) by (rule HoldForPods_nil_index_panics)
  obtain q where q: "q \<in> dom (hs_holds ?hs)"
    using heldAtFirst_holds [OF assms(3,4)] by blast
  have r: "reachable ?c" using assms(1) p by (rule reach_HoldForPods_panic)
  have r': "reachable (handleHostEvent event ?c)" using r by (rule reach_handleHostEvent)
  have a: "\<not> holdsAgree ?c"
    by (rule hold_without_entry [of _ name ?hs q]) (simp_all add: q n)
  have "hostIndex (handleHostEvent event ?c) name = Some ?hs"
    by (simp add: handleHostEvent_other_host [OF assms(5)])
  then have b: "\<not> holdsAgree (handleHostEvent event ?c)"
    using q reachable_nil_index [OF r'] by (rule hold_without_entry)
  from p a r' b show ?thesis by blast
qed

text \<open>
  A new cache, the event \<^verbatim>\<open>AddHost(h1)\<close>, the call \<^verbatim>\<open>HoldForPods(h1, [p1])\<close> with
  the \<^verbatim>\<open>HoldForPod\<close> of the specification, which panics, and the event
  \<^verbatim>\<open>AddHost(h2)\<close>: the index and the holds agree before the call; after the event,
  \<open>h1\<close> holds \<open>p1\<close> and \<^verbatim>\<open>podHeldIndex\<close> has no entry for \<open>p1\<close>.
\<close>

theorem hold_is_left_without_entry_witness:
  "reachable oneHost
   \<and> hostIndex oneHost ''h1'' = Some (newKubeletHostSummary ''h1'' (Some cap1) ''1'')
   \<and> keepsHolds (HoldForPod 0 300 :: string \<Rightarrow> rat HostSummary \<Rightarrow> _)
   \<and> holdSucceeded (HoldForPod 0 300) [''p1'']
        (newKubeletHostSummary ''h1'' (Some cap1) ''1'' :: rat HostSummary) = [''p1'']
   \<and> holdsAgree oneHost
   \<and> HoldForPods (HoldForPod 0 300) ''h1'' [''p1''] oneHost = Panic oneHostHeld
   \<and> \<not> holdsAgree oneHostHeld
   \<and> reachable (handleHostEvent (hostEvent AddHost ''h2'' (Some cap2) ''1'') oneHostHeld)
   \<and> hostIndex (handleHostEvent (hostEvent AddHost ''h2'' (Some cap2) ''1'') oneHostHeld) ''h1''
       = Some heldHost
   \<and> hs_holds heldHost ''p1'' = Some 300
   \<and> GetHostHeldForPod ''p1''
        (handleHostEvent (hostEvent AddHost ''h2'' (Some cap2) ''1'') oneHostHeld) = []
   \<and> \<not> holdsAgree (handleHostEvent (hostEvent AddHost ''h2'' (Some cap2) ''1'') oneHostHeld)"
proof -
  let ?hs = "newKubeletHostSummary ''h1'' (Some cap1) ''1'' :: rat HostSummary"
  let ?e = "hostEvent AddHost ''h2'' (Some cap2) ''1'' :: rat HostEvent"
  have h: "hostIndex oneHost ''h1'' = Some ?hs"
    by (simp add: oneHost_index)
  have k: "keepsHolds (HoldForPod 0 300 :: string \<Rightarrow> rat HostSummary \<Rightarrow> _)"
    by (rule HoldForPod_keepsHolds)
  have s: "holdSucceeded (HoldForPod 0 300) [''p1''] ?hs = [''p1'']"
    by (simp add: holdSucceeded_def HoldForPod_def newKubeletHostSummary_def)
  have s': "holdSucceeded (HoldForPod 0 300) [''p1''] ?hs \<noteq> []"
    by (simp add: s)
  have n: "hostname (hostInfo ?e) \<noteq> ''h1''"
    by (simp add: hostEvent_def)
  have a: "holdsAgree oneHost"
    by (simp add: reachable_holdsAgree_iff [OF reachable_oneHost] oneHost_index
        newKubeletHostSummary_def)
  have f: "heldAtFirst (HoldForPod 0 300) [''p1''] ?hs = heldHost"
    by (simp add: HoldForPod_def heldHost_def newKubeletHostSummary_def)
  have c: "oneHost\<lparr>hostIndex := (hostIndex oneHost)(''h1'' \<mapsto> heldHost)\<rparr> = oneHostHeld"
    by (simp add: oneHostHeld_def oneHost_def handleHostEvent_def addHost_def hostEvent_def
        New_def Let_def)
  have p: "HoldForPods (HoldForPod 0 300) ''h1'' [''p1''] oneHost = Panic oneHostHeld"
    using HoldForPods_nil_index_panics [OF h oneHost_index(2) s'] by (simp only: f c)
  have i: "hostIndex (handleHostEvent ?e oneHostHeld) ''h1'' = Some heldHost"
    by (simp add: handleHostEvent_other_host [OF n] oneHostHeld_def)
  have t: "hs_holds heldHost ''p1'' = Some 300"
    by (simp add: heldHost_def)
  have g: "GetHostHeldForPod ''p1'' (handleHostEvent ?e oneHostHeld) = []"
    by (simp add: GetHostHeldForPod_def handleHostEvent_podHeldIndex oneHostHeld_def)
  from hold_is_left_without_entry [OF reachable_oneHost h k s' n] p
  have "\<not> holdsAgree oneHostHeld
        \<and> reachable (handleHostEvent ?e oneHostHeld)
        \<and> \<not> holdsAgree (handleHostEvent ?e oneHostHeld)"
    by auto
  with reachable_oneHost h k s a p i t g show ?thesis by blast
qed

end
